theory Spec2Isabelle
  imports Main
begin

section \<open>Rendezvous and barrier helpers of the RPC agent (agent\_utils.cpp)\<close>

text \<open>
  The file \<^verbatim>\<open>torch/csrc/distributed/rpc/agent_utils.cpp\<close> holds four functions:
  \<^verbatim>\<open>collectNames\<close> (fixed-size name registry), \<^verbatim>\<open>splitString\<close>,
  \<^verbatim>\<open>collectCurrentNames\<close> (dynamic name registry) and \<^verbatim>\<open>syncCallCount\<close>
  with its helper \<^verbatim>\<open>getNextKeyIds\<close> (counting barrier). They talk to a shared
  key-value store; every worker process runs them on its own.

  Byte vectors and \<^verbatim>\<open>std::string\<close> are both \<^typ>\<open>string\<close> here: the source converts
  between them byte by byte. C \<^verbatim>\<open>int\<close> values are \<^typ>\<open>int\<close> with the 32-bit range
  written out where the source narrows, wraps or range-checks.
\<close>

subsection \<open>Integers and their decimal text\<close>

definition INT_MIN :: int where
  "INT_MIN = - 2147483648"

definition INT_MAX :: int where
  "INT_MAX = 2147483647"

definition in_int_range :: "int \<Rightarrow> bool" where
  "in_int_range x \<longleftrightarrow> INT_MIN \<le> x \<and> x \<le> INT_MAX"

text \<open>Narrowing to a 32-bit \<^verbatim>\<open>int\<close> and the wrap-around of an atomic increment.\<close>

definition to_int32 :: "int \<Rightarrow> int" where
  "to_int32 x = (x + 2147483648) mod 4294967296 - 2147483648"

definition digit_char :: "nat \<Rightarrow> char" where
  "digit_char d = ''0123456789'' ! d"

function digits :: "nat \<Rightarrow> string" where
  "digits n = (if n < 10 then [digit_char n] else digits (n div 10) @ [digit_char (n mod 10)])"
  by pat_completeness auto
termination
  by (relation "measure id") auto

declare digits.simps [simp del]

text \<open>
  \<^verbatim>\<open>c10::to_string\<close> and the \<^verbatim>\<open>{}\<close> of \<^verbatim>\<open>fmt::format\<close> on an integer: decimal
  digits, a leading minus sign for a negative value.
\<close>

definition to_string :: "int \<Rightarrow> string" where
  "to_string i = (if i < 0 then CHR ''-'' # digits (nat (- i)) else digits (nat i))"

text \<open>
  What a call can fail with: the two failed \<^verbatim>\<open>TORCH_CHECK\<close>s, with the values that
  their messages print, and the exceptions of \<^verbatim>\<open>std::vector::at\<close>, of \<^verbatim>\<open>std::stoi\<close>
  and of \<^verbatim>\<open>std::unordered_map::reserve\<close>.
\<close>

datatype error =
    NameCollision string int int
  | IdCollision int string string
  | VectorOutOfRange
  | StoiInvalidArgument
  | StoiOutOfRange
  | ReserveFailure

definition isspace :: "char \<Rightarrow> bool" where
  "isspace c \<longleftrightarrow> c \<in> {CHR '' '', CHR 0x09, CHR 0x0A, CHR 0x0B, CHR 0x0C, CHR 0x0D}"

definition isdigit :: "char \<Rightarrow> bool" where
  "isdigit c \<longleftrightarrow> c \<in> set ''0123456789''"

definition digit_val :: "char \<Rightarrow> nat" where
  "digit_val c = of_char c - 48"

definition digits_val :: "string \<Rightarrow> nat" where
  "digits_val ds = foldl (\<lambda>acc c. 10 * acc + digit_val c) 0 ds"

text \<open>
  \<^verbatim>\<open>std::stoi(s)\<close>: skips leading white space, reads an optional sign and the longest
  run of decimal digits, ignores what follows; throws \<^verbatim>\<open>std::invalid_argument\<close> when
  there is no digit and \<^verbatim>\<open>std::out_of_range\<close> when the value is not an \<^verbatim>\<open>int\<close>.
\<close>

definition stoi :: "string \<Rightarrow> error + int" where
  "stoi s =
     (let s1 = dropWhile isspace s;
          neg = (s1 \<noteq> [] \<and> hd s1 = CHR ''-'');
          s2 = (if s1 \<noteq> [] \<and> (hd s1 = CHR ''-'' \<or> hd s1 = CHR ''+'') then tl s1 else s1);
          ds = takeWhile isdigit s2
      in if ds = [] then Inl StoiInvalidArgument
         else let v = (if neg then - int (digits_val ds) else int (digits_val ds))
              in if in_int_range v then Inr v else Inl StoiOutOfRange)"

subsection \<open>splitString\<close>

text \<open>
  \<^verbatim>\<open>s.find(delim, start)\<close>: the least position \<open>p \<ge> start\<close> at which \<open>delim\<close>
  occurs in \<open>s\<close>, \<^verbatim>\<open>npos\<close> (here \<open>None\<close>) when there is none or \<open>start\<close> is past
  the end.
\<close>

fun find_at :: "string \<Rightarrow> string \<Rightarrow> nat \<Rightarrow> nat option" where
  "find_at [] delim p = (if delim = [] then Some p else None)"
| "find_at (c # cs) delim p =
     (if take (length delim) (c # cs) = delim then Some p else find_at cs delim (Suc p))"

definition find_str :: "string \<Rightarrow> string \<Rightarrow> nat \<Rightarrow> nat option" where
  "find_str s delim start =
     (if length s < start then None else find_at (drop start s) delim start)"

text \<open>\<^verbatim>\<open>s.substr(start, n)\<close> and \<^verbatim>\<open>s.substr(start)\<close> for \<open>start \<le> length s\<close>.\<close>

definition substr :: "string \<Rightarrow> nat \<Rightarrow> nat \<Rightarrow> string" where
  "substr s start n = take n (drop start s)"

definition substr_from :: "string \<Rightarrow> nat \<Rightarrow> string" where
  "substr_from s start = drop start s"

text \<open>
  The \<^verbatim>\<open>while\<close> loop of \<^verbatim>\<open>splitString\<close> (lines 51 to 54) with its local variables
  \<open>start\<close> and \<open>tokens\<close>. With an empty delimiter \<^verbatim>\<open>find\<close> returns \<open>start\<close> again
  and the loop never ends: the result is then \<open>None\<close>.
\<close>

partial_function (option) splitString_loop ::
  "string \<Rightarrow> string \<Rightarrow> nat \<Rightarrow> string list \<Rightarrow> string list option" where
  "splitString_loop s delim start tokens =
     (case find_str s delim start of
        None \<Rightarrow> Some (tokens @ [substr_from s start])
      | Some end \<Rightarrow>
          splitString_loop s delim (end + length delim) (tokens @ [substr s start (end - start)]))"

declare splitString_loop.simps [code]

definition splitString :: "string \<Rightarrow> string \<Rightarrow> string list option" where
  "splitString s delim = splitString_loop s delim 0 []"

subsection \<open>The store\<close>

type_synonym store = "string \<rightharpoonup> string"

text \<open>
  Modelled from the spec: the store class \<^verbatim>\<open>c10d::PrefixStore\<close> is declared outside
  the source file; section 6 of the specification gives its six operations. A store is a
  map from keys to byte strings. \<^verbatim>\<open>set\<close> overwrites; \<^verbatim>\<open>get\<close> reads a present key
  and blocks on an absent one; \<^verbatim>\<open>add\<close> accumulates a number kept as decimal text (the
  source reads it back with \<^verbatim>\<open>std::stoi\<close>) and returns the new total, an absent key
  counting as 0; \<^verbatim>\<open>compareSet\<close> compares the current value (an absent key counting as
  the empty byte string, which is how the source writes "absent") with the expected one,
  stores the new value on a match, and returns the value stored after the attempt;
  \<^verbatim>\<open>check\<close> tests for presence; \<^verbatim>\<open>wait\<close> blocks until the key is present.
\<close>

definition store_set :: "store \<Rightarrow> string \<Rightarrow> string \<Rightarrow> store" where
  "store_set st k v = st(k \<mapsto> v)"

definition counter_val :: "string \<Rightarrow> int" where
  "counter_val v =
     (if v \<noteq> [] \<and> hd v = CHR ''-'' then - int (digits_val (tl v)) else int (digits_val v))"

definition store_add :: "store \<Rightarrow> string \<Rightarrow> int \<Rightarrow> store \<times> int" where
  "store_add st k delta =
     (let newTotal = (case st k of None \<Rightarrow> 0 | Some v \<Rightarrow> counter_val v) + delta
      in (st(k \<mapsto> to_string newTotal), newTotal))"

definition store_compareSet :: "store \<Rightarrow> string \<Rightarrow> string \<Rightarrow> string \<Rightarrow> store \<times> string" where
  "store_compareSet st k expected desired =
     (let current = (case st k of None \<Rightarrow> [] | Some v \<Rightarrow> v)
      in if current = expected then (st(k \<mapsto> desired), desired) else (st, current))"

definition store_check :: "store \<Rightarrow> string \<Rightarrow> bool" where
  "store_check st k \<longleftrightarrow> st k \<noteq> None"

subsection \<open>Calls as sequences of store operations\<close>

text \<open>
  A call of one of the functions is a tree of store operations: each node is one round
  trip to the store, and the continuation takes what the store answers. \<open>Return\<close> and
  \<open>Throw\<close> end the call (the latter is a failed \<^verbatim>\<open>TORCH_CHECK\<close> or a C++ exception),
  \<open>Diverge\<close> is a call that never comes back from a local loop.
\<close>

datatype 'a prog =
    Return 'a
  | Throw error
  | Diverge
  | StoreSet string string "'a prog"
  | StoreGet string "string \<Rightarrow> 'a prog"
  | StoreAdd string int "int \<Rightarrow> 'a prog"
  | StoreCompareSet string string string "string \<Rightarrow> 'a prog"
  | StoreCheck string "bool \<Rightarrow> 'a prog"
  | StoreWait string "'a prog"

datatype event =
    SetEv string string
  | GetEv string string
  | AddEv string int int
  | CompareSetEv string string string string
  | CheckEv string bool
  | WaitEv string

text \<open>
  One atomic step against the store: the event (operation and answer), the store after
  it and the rest of the call. \<open>None\<close>: the call has ended, or it is blocked in
  \<^verbatim>\<open>get\<close> or \<^verbatim>\<open>wait\<close> on an absent key.
\<close>

fun exec :: "store \<Rightarrow> 'a prog \<Rightarrow> (event \<times> store \<times> 'a prog) option" where
  "exec st (Return v) = None"
| "exec st (Throw e) = None"
| "exec st Diverge = None"
| "exec st (StoreSet k v p) = Some (SetEv k v, store_set st k v, p)"
| "exec st (StoreGet k f) =
     (case st k of None \<Rightarrow> None | Some v \<Rightarrow> Some (GetEv k v, st, f v))"
| "exec st (StoreAdd k delta f) =
     (case store_add st k delta of (st', newTotal) \<Rightarrow> Some (AddEv k delta newTotal, st', f newTotal))"
| "exec st (StoreCompareSet k expected desired f) =
     (case store_compareSet st k expected desired of
        (st', result) \<Rightarrow> Some (CompareSetEv k expected desired result, st', f result))"
| "exec st (StoreCheck k f) = Some (CheckEv k (store_check st k), st, f (store_check st k))"
| "exec st (StoreWait k p) = (if store_check st k then Some (WaitEv k, st, p) else None)"

datatype 'a outcome = Returned 'a | Raised error | Blocked | Diverged

definition log_event :: "event \<Rightarrow> 'a outcome \<times> store \<times> event list \<Rightarrow> 'a outcome \<times> store \<times> event list" where
  "log_event ev r = (case r of (out, st, tr) \<Rightarrow> (out, st, ev # tr))"

text \<open>
  A call run alone against a store, with nobody else writing: how it ends, the store it
  leaves and the operations it performed, in order.
\<close>

primrec run :: "'a prog \<Rightarrow> store \<Rightarrow> 'a outcome \<times> store \<times> event list" where
  "run (Return v) st = (Returned v, st, [])"
| "run (Throw e) st = (Raised e, st, [])"
| "run Diverge st = (Diverged, st, [])"
| "run (StoreSet k v p) st = log_event (SetEv k v) (run p (store_set st k v))"
| "run (StoreGet k f) st =
     (case st k of None \<Rightarrow> (Blocked, st, [])
      | Some v \<Rightarrow> log_event (GetEv k v) (run (f v) st))"
| "run (StoreAdd k delta f) st =
     (case store_add st k delta of
        (st', newTotal) \<Rightarrow> log_event (AddEv k delta newTotal) (run (f newTotal) st'))"
| "run (StoreCompareSet k expected desired f) st =
     (case store_compareSet st k expected desired of
        (st', result) \<Rightarrow> log_event (CompareSetEv k expected desired result) (run (f result) st'))"
| "run (StoreCheck k f) st =
     log_event (CheckEv k (store_check st k)) (run (f (store_check st k)) st)"
| "run (StoreWait k p) st =
     (if store_check st k then log_event (WaitEv k) (run p st) else (Blocked, st, []))"

text \<open>
  Several workers on one store: a configuration is the store and the rest of each
  worker's call; a step lets one worker perform its next store operation, atomically.
  A schedule is the list of the workers that step, in order.
\<close>

type_synonym 'a conf = "store \<times> 'a prog list"

definition cstep :: "'a conf \<Rightarrow> nat \<Rightarrow> 'a conf option" where
  "cstep c i =
     (case c of (st, ps) \<Rightarrow>
        if i < length ps then
          (case exec st (ps ! i) of
             None \<Rightarrow> None
           | Some (ev, st', p') \<Rightarrow> Some (st', ps[i := p']))
        else None)"

fun crun :: "'a conf \<Rightarrow> nat list \<Rightarrow> 'a conf option" where
  "crun c [] = Some c"
| "crun c (i # sched) = (case cstep c i of None \<Rightarrow> None | Some c' \<Rightarrow> crun c' sched)"

text \<open>
  A call among other workers. The list holds the store as the call finds it at each of
  its turns; between two turns the other workers may have changed the store in any
  way. At a turn the call performs its next operation on the store that it finds; when
  it is blocked there, or has ended, the turn passes. The result is the operations
  performed, each with the store of its turn, and the rest of the call.
\<close>

fun run_among :: "'a prog \<Rightarrow> store list \<Rightarrow> (store \<times> event) list \<times> 'a prog" where
  "run_among p [] = ([], p)"
| "run_among p (st # sts) =
     (case exec st p of
        None \<Rightarrow> run_among p sts
      | Some (ev, st', p') \<Rightarrow> (case run_among p' sts of (tr, rest) \<Rightarrow> ((st, ev) # tr, rest)))"

text \<open>
  An event that a store can answer with: the operation is enabled in that store, and
  the answer it carries is the one that \<open>exec\<close> computes there.
\<close>

fun answered :: "store \<Rightarrow> event \<Rightarrow> bool" where
  "answered st (SetEv k v) = True"
| "answered st (GetEv k v) = (st k = Some v)"
| "answered st (AddEv k delta newTotal) = (newTotal = snd (store_add st k delta))"
| "answered st (CompareSetEv k expected desired result) =
     (result = snd (store_compareSet st k expected desired))"
| "answered st (CheckEv k b) = (b = store_check st k)"
| "answered st (WaitEv k) = store_check st k"

subsection \<open>collectNames\<close>

text \<open>
  \<^verbatim>\<open>std::unordered_map<std::string, worker_id_t>\<close> as a list of (name, id) entries in
  the order of insertion: \<^verbatim>\<open>find\<close> looks a name up, \<^verbatim>\<open>emplace\<close> adds an entry
  unless the name is there already. The type \<^verbatim>\<open>worker_id_t\<close> is declared in a header
  outside the source file; the specification calls it a small non-negative integer, and
  it is \<^typ>\<open>int\<close> here.
\<close>

type_synonym nametable = "(string \<times> int) list"

definition find_name :: "nametable \<Rightarrow> string \<Rightarrow> int option" where
  "find_name nameToId name = map_of nameToId name"

definition emplace :: "nametable \<Rightarrow> string \<Rightarrow> int \<Rightarrow> nametable" where
  "emplace nameToId name wid =
     (case find_name nameToId name of None \<Rightarrow> nameToId @ [(name, wid)] | Some _ \<Rightarrow> nameToId)"

text \<open>The \<^verbatim>\<open>for\<close> loop of lines 21 to 40, from the current \<open>workerId\<close> on.\<close>

function collectNames_loop :: "int \<Rightarrow> int \<Rightarrow> int \<Rightarrow> nametable \<Rightarrow> nametable prog" where
  "collectNames_loop selfId worldSize workerId nameToId =
     (if workerId < worldSize then
        (if workerId = selfId then collectNames_loop selfId worldSize (workerId + 1) nameToId
         else StoreGet (to_string workerId) (\<lambda>workerName.
                case find_name nameToId workerName of
                  Some other \<Rightarrow> Throw (NameCollision workerName other workerId)
                | None \<Rightarrow>
                    collectNames_loop selfId worldSize (workerId + 1)
                      (emplace nameToId workerName workerId)))
      else Return nameToId)"
  by pat_completeness auto
termination
  by (relation "measure (\<lambda>(selfId, worldSize, workerId, nameToId). nat (worldSize - workerId))")
    auto

declare collectNames_loop.simps [simp del]

text \<open>
  Line 19, \<^verbatim>\<open>nameToId.reserve(worldSize)\<close>, comes after the write of line 16. The
  parameter of \<^verbatim>\<open>reserve\<close> is the unsigned size type, so a negative \<open>worldSize\<close>
  arrives there as a count of at least \<open>2 ^ 64 - 2 ^ 31\<close> elements: no table of that
  size can be allocated, and the standard library throws (\<^verbatim>\<open>std::length_error\<close> or
  \<^verbatim>\<open>std::bad_alloc\<close>, here \<open>ReserveFailure\<close>). For the other values of \<open>worldSize\<close> the
  call changes no entry of the table; that memory runs out there is not modelled.
\<close>

definition collectNames :: "int \<Rightarrow> string \<Rightarrow> int \<Rightarrow> nametable prog" where
  "collectNames selfId selfName worldSize =
     StoreSet (to_string selfId) selfName
       (if worldSize < 0 then Throw ReserveFailure
        else collectNames_loop selfId worldSize 0 (emplace [] selfName selfId))"

subsection \<open>collectCurrentNames\<close>

text \<open>\<^verbatim>\<open>std::vector::at\<close>, which throws \<^verbatim>\<open>std::out_of_range\<close> past the end.\<close>

definition at :: "'a list \<Rightarrow> nat \<Rightarrow> error + 'a" where
  "at xs i = (if i < length xs then Inr (xs ! i) else Inl VectorOutOfRange)"

text \<open>
  Lines 98 to 100: one record \<^verbatim>\<open>name-id\<close> of the manifest. \<open>None\<close> would be a
  \<^verbatim>\<open>splitString\<close> that does not return.
\<close>

definition parseWorkerInfo :: "string \<Rightarrow> (error + string \<times> int) option" where
  "parseWorkerInfo workerInfo =
     (case splitString workerInfo ''-'' of
        None \<Rightarrow> None
      | Some workerInfoVec \<Rightarrow>
          Some (case at workerInfoVec 0 of
                  Inl e \<Rightarrow> Inl e
                | Inr workerName \<Rightarrow>
                    (case at workerInfoVec 1 of
                       Inl e \<Rightarrow> Inl e
                     | Inr idText \<Rightarrow>
                         (case stoi idText of
                            Inl e \<Rightarrow> Inl e
                          | Inr workerId \<Rightarrow> Inr (workerName, workerId)))))"

text \<open>The \<^verbatim>\<open>for\<close> loop of lines 97 to 113 over the records of the manifest.\<close>

fun collectCurrentNames_loop :: "nametable \<Rightarrow> string list \<Rightarrow> (error + nametable) option" where
  "collectCurrentNames_loop nameToId [] = Some (Inr nameToId)"
| "collectCurrentNames_loop nameToId (workerInfo # rest) =
     (case parseWorkerInfo workerInfo of
        None \<Rightarrow> None
      | Some (Inl e) \<Rightarrow> Some (Inl e)
      | Some (Inr (workerName, workerId)) \<Rightarrow>
          (case find_name nameToId workerName of
             Some other \<Rightarrow> Some (Inl (NameCollision workerName other workerId))
           | None \<Rightarrow> collectCurrentNames_loop (emplace nameToId workerName workerId) rest))"

definition allWorkerInfosKey :: string where
  "allWorkerInfosKey = ''AllWorkerInfos''"

text \<open>
  The two \<^verbatim>\<open>fmt::format\<close> calls of lines 114 and 117: the manifest with the caller's
  own record appended, or the fresh manifest when there was none.
\<close>

definition formatWorkerInfos :: "string option \<Rightarrow> string \<Rightarrow> int \<Rightarrow> string" where
  "formatWorkerInfos allWorkerInfos selfName selfId =
     (case allWorkerInfos of
        Some infos \<Rightarrow> infos @ '','' @ selfName @ ''-'' @ to_string selfId
      | None \<Rightarrow> selfName @ ''-'' @ to_string selfId)"

text \<open>
  Lines 82 to 124, the part of \<^verbatim>\<open>collectCurrentNames\<close> that works on the manifest:
  check for it, read and parse it when it is there, write it back with the caller's
  record appended, and return the table.
\<close>

definition collectCurrentNames_manifest :: "int \<Rightarrow> string \<Rightarrow> nametable prog" where
  "collectCurrentNames_manifest selfId selfName =
     StoreCheck allWorkerInfosKey (\<lambda>worker_names_available.
       if worker_names_available then
         StoreGet allWorkerInfosKey (\<lambda>allWorkerInfos.
           case splitString allWorkerInfos '','' of
             None \<Rightarrow> Diverge
           | Some workerInfos \<Rightarrow>
               (case collectCurrentNames_loop (emplace [] selfName selfId) workerInfos of
                  None \<Rightarrow> Diverge
                | Some (Inl e) \<Rightarrow> Throw e
                | Some (Inr nameToId) \<Rightarrow>
                    StoreSet allWorkerInfosKey
                      (formatWorkerInfos (Some allWorkerInfos) selfName selfId)
                      (Return nameToId)))
       else
         StoreSet allWorkerInfosKey (formatWorkerInfos None selfName selfId)
           (Return (emplace [] selfName selfId)))"

text \<open>
  Lines 63 to 80, the claim of the id: a compare-and-set from the empty byte string to
  the caller's name, the check of its answer, and the unconditional \<^verbatim>\<open>set\<close>; then
  the manifest part.
\<close>

definition collectCurrentNames :: "int \<Rightarrow> string \<Rightarrow> nametable prog" where
  "collectCurrentNames selfId selfName =
     StoreCompareSet (to_string selfId) [] selfName (\<lambda>resultVector.
       if resultVector \<noteq> selfName then Throw (IdCollision selfId resultVector selfName)
       else
         StoreSet (to_string selfId) selfName (collectCurrentNames_manifest selfId selfName))"

subsection \<open>getNextKeyIds and syncCallCount\<close>

definition storeKeyBarrierId :: string where
  "storeKeyBarrierId = ''_ID_''"

definition storeKeyProcessCount :: string where
  "storeKeyProcessCount = ''PROCESS_COUNT''"

definition storeKeyActiveCallCount :: string where
  "storeKeyActiveCallCount = ''ACTIVE_CALLS''"

definition storeKeyReady :: string where
  "storeKeyReady = ''READY''"

text \<open>The three keys of a barrier epoch, as lines 135 to 141 format them.\<close>

definition epochKeys :: "int \<Rightarrow> string \<times> string \<times> string" where
  "epochKeys barrierId =
     (storeKeyProcessCount @ storeKeyBarrierId @ to_string barrierId,
      storeKeyActiveCallCount @ storeKeyBarrierId @ to_string barrierId,
      storeKeyReady @ storeKeyBarrierId @ to_string barrierId)"

text \<open>
  The process-local counter \<^verbatim>\<open>barrierId\<close> is a \<^verbatim>\<open>std::atomic<int>\<close>: the call takes
  its value and gives the incremented one back, wrapping at 32 bits.
\<close>

definition getNextKeyIds :: "int \<Rightarrow> (string \<times> string \<times> string) \<times> int" where
  "getNextKeyIds barrierId =
     (let barrierId' = to_int32 (barrierId + 1) in (epochKeys barrierId', barrierId'))"

text \<open>
  The store operations of \<^verbatim>\<open>syncCallCount\<close> (lines 155 to 170) on the keys of one
  epoch. The store's \<^verbatim>\<open>add\<close> answers with a wider integer, which the source narrows to
  \<^verbatim>\<open>int\<close>; the first total is not used.
\<close>

definition syncCallCount_ops :: "string \<times> string \<times> string \<Rightarrow> int \<Rightarrow> int \<Rightarrow> int prog" where
  "syncCallCount_ops keys worldSize activeCalls =
     (case keys of (processCountKey, activeCallCountKey, readyKey) \<Rightarrow>
        StoreAdd activeCallCountKey activeCalls (\<lambda>total1.
          StoreAdd processCountKey 1 (\<lambda>total2.
            let totalProcessCount = to_int32 total2;
                rest = StoreWait readyKey
                         (StoreGet activeCallCountKey (\<lambda>activeCallCountData.
                            case stoi activeCallCountData of
                              Inl e \<Rightarrow> Throw e
                            | Inr totalCallCount \<Rightarrow> Return totalCallCount))
            in if totalProcessCount = worldSize then StoreSet readyKey [] rest else rest)))"

definition syncCallCount :: "int \<Rightarrow> int \<Rightarrow> int \<Rightarrow> int prog \<times> int" where
  "syncCallCount barrierId worldSize activeCalls =
     (case getNextKeyIds barrierId of
        (keys, barrierId') \<Rightarrow> (syncCallCount_ops keys worldSize activeCalls, barrierId'))"

subsection \<open>Keys of successive epochs\<close>

text \<open>The three keys of a triple as a list, and the counter after \<open>k\<close> calls of
  \<^verbatim>\<open>getNextKeyIds\<close> in one process.\<close>

definition key_list :: "string \<times> string \<times> string \<Rightarrow> string list" where
  "key_list keys = (case keys of (processCountKey, activeCallCountKey, readyKey) \<Rightarrow>
     [processCountKey, activeCallCountKey, readyKey])"

primrec epoch_after :: "int \<Rightarrow> nat \<Rightarrow> int" where
  "epoch_after barrierId 0 = barrierId"
| "epoch_after barrierId (Suc k) = snd (getNextKeyIds (epoch_after barrierId k))"

subsection \<open>The manifest as text\<close>

text \<open>
  The manifest of \<open>ps\<close>: the text that successive calls of \<^verbatim>\<open>collectCurrentNames\<close>
  leave under the manifest key when they register the pairs of \<open>ps\<close> one after the
  other, starting without a manifest (\<open>None\<close>).
\<close>

definition serialise :: "(string \<times> int) list \<Rightarrow> string option" where
  "serialise ps = foldl (\<lambda>manifest (name, wid). Some (formatWorkerInfos manifest name wid)) None ps"

text \<open>
  The store that the dynamic registry leaves when the pairs of \<open>ps\<close> are registered
  by successive calls of \<^verbatim>\<open>collectCurrentNames\<close>, one after the other, on a store
  that is empty at first.
\<close>

definition registered :: "(string \<times> int) list \<Rightarrow> store" where
  "registered ps =
     foldl (\<lambda>st (name, wid). fst (snd (run (collectCurrentNames wid name) st))) Map.empty ps"

text \<open>
  Reading a manifest back as lines 97 to 100 do: split it at the commas and parse every
  record, in order (the uniqueness check of lines 102 to 110 left aside). Without a
  manifest there is nothing to parse.
\<close>

fun parse_records :: "string list \<Rightarrow> (error + (string \<times> int) list) option" where
  "parse_records [] = Some (Inr [])"
| "parse_records (workerInfo # rest) =
     (case parseWorkerInfo workerInfo of
        None \<Rightarrow> None
      | Some (Inl e) \<Rightarrow> Some (Inl e)
      | Some (Inr p) \<Rightarrow>
          (case parse_records rest of
             None \<Rightarrow> None
           | Some (Inl e) \<Rightarrow> Some (Inl e)
           | Some (Inr ps) \<Rightarrow> Some (Inr (p # ps))))"

definition parseManifest :: "string option \<Rightarrow> (error + (string \<times> int) list) option" where
  "parseManifest manifest =
     (case manifest of
        None \<Rightarrow> Some (Inr [])
      | Some allWorkerInfos \<Rightarrow>
          (case splitString allWorkerInfos '','' of
             None \<Rightarrow> None
           | Some workerInfos \<Rightarrow> parse_records workerInfos))"

text \<open>
  A pair that the manifest can carry: the name holds neither delimiter, and the id is a
  non-negative \<^verbatim>\<open>int\<close>, as worker ids are.
\<close>

definition plain_pair :: "string \<times> int \<Rightarrow> bool" where
  "plain_pair p \<longleftrightarrow>
     CHR '','' \<notin> set (fst p) \<and> CHR ''-'' \<notin> set (fst p) \<and> 0 \<le> snd p \<and> snd p \<le> INT_MAX"

text \<open>Tokens joined by a one-character delimiter.\<close>

fun join :: "char \<Rightarrow> string list \<Rightarrow> string" where
  "join c [] = []"
| "join c [t] = t"
| "join c (t # ts) = t @ [c] @ join c ts"

definition record_text :: "string \<times> int \<Rightarrow> string" where
  "record_text p = formatWorkerInfos None (fst p) (snd p)"

subsection \<open>Traces of the fixed-size registry\<close>

text \<open>
  The keys of the ids from \<open>workerId\<close> up to \<open>worldSize - 1\<close> other than \<open>selfId\<close>,
  in the order of the loop, and the \<^verbatim>\<open>get\<close> events that read a first part of them.
\<close>

definition other_keys :: "int \<Rightarrow> int \<Rightarrow> int \<Rightarrow> string list" where
  "other_keys selfId worldSize workerId =
     map to_string (filter (\<lambda>j. j \<noteq> selfId) [workerId..worldSize - 1])"

definition gets_of :: "string list \<Rightarrow> string list \<Rightarrow> event list" where
  "gets_of ks vs = map (\<lambda>(k, v). GetEv k v) (zip ks vs)"

subsection \<open>Events that claim an id\<close>

fun is_compareSet :: "event \<Rightarrow> bool" where
  "is_compareSet (CompareSetEv k expected desired result) = True"
| "is_compareSet _ = False"

fun is_IdCollision :: "'a outcome \<Rightarrow> bool" where
  "is_IdCollision (Raised (IdCollision wid occupant name)) = True"
| "is_IdCollision _ = False"

subsection \<open>A group of workers in the fixed-size registry\<close>

text \<open>
  A call has ended when it has returned, thrown, or is lost in a local loop.
\<close>

fun finished :: "'a prog \<Rightarrow> bool" where
  "finished (Return v) = True"
| "finished (Throw e) = True"
| "finished Diverge = True"
| "finished _ = False"

text \<open>
  The workers of a group as (id, name) pairs: each calls \<^verbatim>\<open>collectNames\<close> with its own
  pair and the size of the group. The table that the group stands for maps every name
  to its id.
\<close>

definition registry_group :: "(int \<times> string) list \<Rightarrow> nametable prog list" where
  "registry_group ws = map (\<lambda>(wid, name). collectNames wid name (int (length ws))) ws"

definition registry_map :: "(int \<times> string) list \<Rightarrow> string \<rightharpoonup> int" where
  "registry_map ws = map_of (map (\<lambda>(wid, name). (name, wid)) ws)"

text \<open>
  What holds of every configuration that a group reaches: the key of an id is absent or
  holds the name of that id; a worker is at its first operation, or has published its
  name and is in the loop with a table that holds its own id and the ids below the
  loop counter, every entry being a pair of the group. The number \<open>pot\<close> counts the
  store operations that the worker has still to perform.
\<close>

definition loop_table_ok :: "(int \<times> string) list \<Rightarrow> int \<Rightarrow> int \<Rightarrow> nametable \<Rightarrow> bool" where
  "loop_table_ok ws selfId workerId nameToId \<longleftrightarrow>
     0 \<le> workerId \<and> workerId \<le> int (length ws) \<and> distinct (map snd nameToId)
     \<and> snd ` set nameToId = insert selfId {0..<workerId}
     \<and> (\<forall>(name, wid) \<in> set nameToId. (wid, name) \<in> set ws)"

definition registry_worker_inv ::
  "(int \<times> string) list \<Rightarrow> store \<Rightarrow> int \<times> string \<Rightarrow> nametable prog \<Rightarrow> nat \<Rightarrow> bool" where
  "registry_worker_inv ws st w p pot \<longleftrightarrow>
     (p = collectNames (fst w) (snd w) (int (length ws))
        \<and> pot = Suc (card ({0..<int (length ws)} - {fst w})))
     \<or> (st (to_string (fst w)) = Some (snd w)
        \<and> (\<exists>workerId nameToId.
              p = collectNames_loop (fst w) (int (length ws)) workerId nameToId
              \<and> loop_table_ok ws (fst w) workerId nameToId
              \<and> pot = card ({workerId..<int (length ws)} - {fst w})))"

definition registry_inv :: "(int \<times> string) list \<Rightarrow> nat \<Rightarrow> nametable conf \<Rightarrow> bool" where
  "registry_inv ws n c \<longleftrightarrow>
     length (snd c) = length ws
     \<and> (\<forall>w \<in> set ws. fst c (to_string (fst w)) = None \<or> fst c (to_string (fst w)) = Some (snd w))
     \<and> (\<exists>pots. length pots = length ws
           \<and> n + sum_list pots = length ws * length ws
           \<and> (\<forall>p < length ws. registry_worker_inv ws (fst c) (ws ! p) (snd c ! p) (pots ! p)))"

text \<open>A group as the claim describes it: distinct ids below the size, distinct names.\<close>

definition valid_group :: "(int \<times> string) list \<Rightarrow> bool" where
  "valid_group ws \<longleftrightarrow>
     distinct (map fst ws) \<and> set (map fst ws) \<subseteq> {0..<int (length ws)} \<and> distinct (map snd ws)"

definition fresh_store :: "(int \<times> string) list \<Rightarrow> store \<Rightarrow> bool" where
  "fresh_store ws st \<longleftrightarrow> list_all (\<lambda>w. st (to_string (fst w)) = None) ws"

subsection \<open>A group of workers at the barrier\<close>

text \<open>
  How a call of \<^verbatim>\<open>syncCallCount\<close> ends once it has read the text of \<open>newTotal\<close>
  back: \<^verbatim>\<open>std::stoi\<close> gives the number, or throws when it is not an \<^verbatim>\<open>int\<close>.
\<close>

definition sync_result :: "int \<Rightarrow> int prog" where
  "sync_result newTotal =
     (case stoi (to_string newTotal) of
        Inl e \<Rightarrow> Throw e
      | Inr totalCallCount \<Rightarrow> Return totalCallCount)"

text \<open>
  The rest of a call of \<^verbatim>\<open>syncCallCount\<close> by the number of the stage it is at: 0 before
  the addition of \<open>activeCalls\<close>, 1 before the addition to the process count, 2 before
  the write of the ready marker (last arrival only), 3 before the wait, 4 before the
  re-read, 5 at the end, with the group's total read back.
\<close>

definition sync_read :: "string \<times> string \<times> string \<Rightarrow> int prog" where
  "sync_read keys =
     (case keys of (processCountKey, activeCallCountKey, readyKey) \<Rightarrow>
        StoreGet activeCallCountKey (\<lambda>activeCallCountData.
          case stoi activeCallCountData of
            Inl e \<Rightarrow> Throw e
          | Inr totalCallCount \<Rightarrow> Return totalCallCount))"

definition sync_wait :: "string \<times> string \<times> string \<Rightarrow> int prog" where
  "sync_wait keys =
     (case keys of (processCountKey, activeCallCountKey, readyKey) \<Rightarrow>
        StoreWait readyKey (sync_read keys))"

definition sync_stage ::
  "string \<times> string \<times> string \<Rightarrow> int \<Rightarrow> int \<Rightarrow> int \<Rightarrow> nat \<Rightarrow> int prog" where
  "sync_stage keys worldSize activeCalls groupTotal s =
     (case keys of (processCountKey, activeCallCountKey, readyKey) \<Rightarrow>
        if s = 0 then syncCallCount_ops keys worldSize activeCalls
        else if s = 1 then
          StoreAdd processCountKey 1 (\<lambda>total2.
            if to_int32 total2 = worldSize then StoreSet readyKey [] (sync_wait keys)
            else sync_wait keys)
        else if s = 2 then StoreSet readyKey [] (sync_wait keys)
        else if s = 3 then sync_wait keys
        else if s = 4 then sync_read keys
        else sync_result groupTotal)"

text \<open>
  A group at one barrier: every worker calls \<^verbatim>\<open>syncCallCount\<close> with the size of the
  group and its own \<open>activeCalls\<close>, all with the same value of their process-local
  counter, so that they work on the keys of the same epoch.
\<close>

definition barrier_group :: "int \<Rightarrow> int list \<Rightarrow> int prog list" where
  "barrier_group barrierId calls =
     map (\<lambda>activeCalls. fst (syncCallCount barrierId (int (length calls)) activeCalls)) calls"

definition fresh_keys :: "string \<times> string \<times> string \<Rightarrow> store \<Rightarrow> bool" where
  "fresh_keys keys st \<longleftrightarrow> list_all (\<lambda>k. st k = None) (key_list keys)"

text \<open>
  The sum of the contributions made so far and the number of arrivals counted so far,
  from the stages \<open>sg\<close> of the workers.
\<close>

definition added_calls :: "int list \<Rightarrow> nat list \<Rightarrow> int" where
  "added_calls calls sg = (\<Sum>p < length calls. if 1 \<le> sg ! p then calls ! p else 0)"

definition counted :: "int list \<Rightarrow> nat list \<Rightarrow> nat set" where
  "counted calls sg = {p. p < length calls \<and> 2 \<le> sg ! p}"

text \<open>
  What holds of every configuration that the group reaches, with \<open>sg\<close> the stage of
  each worker: the two counters hold what the stages say; the ready marker is there, or
  a worker is past stage 1 other than waiting, only when all have been counted; and
  when all have been counted the marker is there or its writer is about to write it.
\<close>

definition barrier_inv :: "string \<times> string \<times> string \<Rightarrow> int list \<Rightarrow> nat \<Rightarrow> int conf \<Rightarrow> bool" where
  "barrier_inv keys calls n c \<longleftrightarrow>
     (case keys of (processCountKey, activeCallCountKey, readyKey) \<Rightarrow>
        \<exists>sg. length sg = length calls \<and> length (snd c) = length calls
          \<and> (\<forall>p < length calls.
                sg ! p \<le> 5
                \<and> snd c ! p = sync_stage keys (int (length calls)) (calls ! p) (sum_list calls) (sg ! p))
          \<and> fst c activeCallCountKey =
                (if \<forall>p < length calls. sg ! p = 0 then None
                 else Some (to_string (added_calls calls sg)))
          \<and> fst c processCountKey =
                (if counted calls sg = {} then None
                 else Some (to_string (int (card (counted calls sg)))))
          \<and> ((fst c readyKey \<noteq> None \<or> (\<exists>p < length calls. sg ! p = 2 \<or> 4 \<le> sg ! p))
                \<longrightarrow> (\<forall>p < length calls. 2 \<le> sg ! p))
          \<and> ((\<forall>p < length calls. 2 \<le> sg ! p)
                \<longrightarrow> fst c readyKey \<noteq> None \<or> (\<exists>p < length calls. sg ! p = 2))
          \<and> n \<le> sum_list sg)"

section \<open>Verified properties\<close>

subsection \<open>Decimal text and 32-bit wrap-around\<close>

lemma digit_cases: "d < 10 \<Longrightarrow> d \<in> {0,1,2,3,4,5,6,7,8,9::nat}"
  by auto

lemma digit_val_digit_char: "d < 10 \<Longrightarrow> digit_val (digit_char d) = d"
  using digit_cases [of d] by (auto simp: digit_val_def digit_char_def)

lemma isdigit_digit_char: "d < 10 \<Longrightarrow> isdigit (digit_char d)"
  using digit_cases [of d] by (auto simp: isdigit_def digit_char_def)

lemma digits_val_snoc: "digits_val (ds @ [c]) = 10 * digits_val ds + digit_val c"
  by (simp add: digits_val_def)

lemma digits_val_single: "digits_val [c] = digit_val c"
  by (simp add: digits_val_def)

lemma digits_val_digits: "digits_val (digits n) = n"
proof (induction n rule: digits.induct)
  case (1 n)
  show ?case
  proof (cases "n < 10")
    case True
    then show ?thesis
      by (subst digits.simps) (simp add: digits_val_single digit_val_digit_char)
  next
    case False
    with 1 have "digits_val (digits (n div 10)) = n div 10" by simp
    with False show ?thesis
      by (subst digits.simps) (simp add: digits_val_snoc digit_val_digit_char)
  qed
qed

lemma digits_all_isdigit: "c \<in> set (digits n) \<Longrightarrow> isdigit c"
proof (induction n rule: digits.induct)
  case (1 n)
  show ?case
  proof (cases "n < 10")
    case True
    with "1.prems" show ?thesis
      by (subst (asm) digits.simps) (simp add: isdigit_digit_char)
  next
    case False
    with 1 show ?thesis
      by (subst (asm) digits.simps) (auto simp: isdigit_digit_char)
  qed
qed

lemma digits_not_Nil: "digits n \<noteq> []"
  by (subst digits.simps) simp

lemma hd_digits_isdigit: "isdigit (hd (digits n))"
  using digits_all_isdigit [of "hd (digits n)" n] digits_not_Nil [of n] by simp

lemma isdigit_not_minus: "isdigit c \<Longrightarrow> c \<noteq> CHR ''-''"
  by (auto simp: isdigit_def)

lemma isdigit_not_space: "isdigit c \<Longrightarrow> \<not> isspace c"
  by (auto simp: isdigit_def isspace_def)

lemma hd_digits_not_minus: "hd (digits n) \<noteq> CHR ''-''"
  using hd_digits_isdigit [of n] isdigit_not_minus by blast

lemma counter_val_digits: "counter_val (digits n) = int n"
  unfolding counter_val_def using hd_digits_not_minus [of n]
  by (simp only: digits_val_digits if_False simp_thms)

lemma counter_val_to_string: "counter_val (to_string i) = i"
proof (cases "i < 0")
  case True
  then show ?thesis
    by (simp add: counter_val_def to_string_def digits_val_digits)
next
  case False
  then have a: "to_string i = digits (nat i)" by (simp add: to_string_def)
  have b: "counter_val (to_string i) = int (nat i)" 
    apply (subst a)
    apply (rule counter_val_digits)
    done
  have c: "int (nat i) = i" using False by linarith
  show ?thesis using b c by (rule trans)
qed

lemma to_string_inj: "to_string i = to_string j \<Longrightarrow> i = j"
  by (metis counter_val_to_string)

lemma to_string_eq_iff: "to_string i = to_string j \<longleftrightarrow> i = j"
  using to_string_inj by auto


lemma to_int32_id: "in_int_range x \<Longrightarrow> to_int32 x = x"
  by (simp add: in_int_range_def INT_MIN_def INT_MAX_def to_int32_def)

lemma to_int32_range: "in_int_range (to_int32 x)"
  by (simp add: in_int_range_def INT_MIN_def INT_MAX_def to_int32_def)

lemma to_int32_eq_iff: "to_int32 x = to_int32 y \<longleftrightarrow> 4294967296 dvd (x - y)"
proof -
  have "to_int32 x = to_int32 y \<longleftrightarrow>
        (x + 2147483648) mod 4294967296 = (y + 2147483648) mod 4294967296"
    by (simp add: to_int32_def)
  also have "\<dots> \<longleftrightarrow> 4294967296 dvd ((x + 2147483648) - (y + 2147483648))"
    by (rule mod_eq_dvd_iff)
  finally show ?thesis by simp
qed

lemma to_int32_succ_neq: "to_int32 (x + 1) \<noteq> to_int32 x"
  by (simp add: to_int32_eq_iff)

lemma to_int32_to_int32_add: "to_int32 (to_int32 x + y) = to_int32 (x + y)"
proof -
  have "to_int32 x - x = to_int32 x + y - (x + y)" by simp
  moreover have "4294967296 dvd (to_int32 x - x)"
    using to_int32_eq_iff [of "to_int32 x" x] to_int32_id [OF to_int32_range [of x]] by simp
  ultimately show ?thesis
    by (simp add: to_int32_eq_iff)
qed


lemma takeWhile_isdigit_digits: "takeWhile isdigit (digits n) = digits n"
  by (simp add: digits_all_isdigit)

lemma dropWhile_isspace_digits: "dropWhile isspace (digits n) = digits n"
  using hd_digits_isdigit [of n] digits_not_Nil [of n] isdigit_not_space
  by (cases "digits n") auto

lemma hd_digits_not_plus: "hd (digits n) \<noteq> CHR ''+''"
  using hd_digits_isdigit [of n] by (auto simp: isdigit_def)

lemma not_isspace_minus: "\<not> isspace CHR ''-''"
  by (simp add: isspace_def)

lemma stoi_digits: "in_int_range (int n) \<Longrightarrow> stoi (digits n) = Inr (int n)"
  by (simp add: stoi_def Let_def dropWhile_isspace_digits hd_digits_not_plus hd_digits_not_minus
      takeWhile_isdigit_digits digits_not_Nil digits_val_digits)

lemma stoi_minus_digits: "in_int_range (- int n) \<Longrightarrow> stoi (CHR ''-'' # digits n) = Inr (- int n)"
  by (simp add: stoi_def Let_def not_isspace_minus
      takeWhile_isdigit_digits digits_not_Nil digits_val_digits)

lemma stoi_to_string: "in_int_range i \<Longrightarrow> stoi (to_string i) = Inr i"
proof (cases "i < 0")
  case True
  assume "in_int_range i"
  with True have "in_int_range (- int (nat (- i)))" by simp
  from stoi_minus_digits [OF this] True show ?thesis by (simp add: to_string_def)
next
  case False
  assume "in_int_range i"
  with False have "in_int_range (int (nat i))" by simp
  from stoi_digits [OF this] False show ?thesis by (simp add: to_string_def)
qed

lemma stoi_to_string_out: "\<not> in_int_range i \<Longrightarrow> stoi (to_string i) = Inl StoiOutOfRange"
proof (cases "i < 0")
  case True
  assume "\<not> in_int_range i"
  with True have "\<not> in_int_range (- int (nat (- i)))" by simp
  with True show ?thesis 
    by (simp add: to_string_def stoi_def Let_def not_isspace_minus
      takeWhile_isdigit_digits digits_not_Nil digits_val_digits)
next
  case False
  assume "\<not> in_int_range i"
  with False have "\<not> in_int_range (int (nat i))" by simp
  with False show ?thesis
    by (simp add: to_string_def stoi_def Let_def dropWhile_isspace_digits hd_digits_not_plus hd_digits_not_minus
      takeWhile_isdigit_digits digits_not_Nil digits_val_digits)
qed

subsection \<open>Epoch keys\<close>

lemmas key_defs = epochKeys_def key_list_def storeKeyProcessCount_def storeKeyActiveCallCount_def
  storeKeyReady_def storeKeyBarrierId_def

lemma epochKeys_distinct: "distinct (key_list (epochKeys e))"
  by (simp add: key_defs)

lemma epochKeys_disjoint:
  "e1 \<noteq> e2 \<Longrightarrow> set (key_list (epochKeys e1)) \<inter> set (key_list (epochKeys e2)) = {}"
  by (simp add: key_defs to_string_eq_iff)

lemma getNextKeyIds_keys: "fst (getNextKeyIds b) = epochKeys (snd (getNextKeyIds b))"
  by (simp add: getNextKeyIds_def Let_def)

lemma getNextKeyIds_epoch: "snd (getNextKeyIds b) = to_int32 (b + 1)"
  by (simp add: getNextKeyIds_def Let_def)

lemma to_int32_epoch_after: "to_int32 (epoch_after b k) = to_int32 (b + int k)"
proof (induction k)
  case 0
  show ?case by simp
next
  case (Suc k)
  have "to_int32 (epoch_after b (Suc k)) = to_int32 (epoch_after b k + 1)"
    by (simp add: getNextKeyIds_epoch to_int32_id [OF to_int32_range])
  also have "\<dots> = to_int32 (to_int32 (epoch_after b k) + 1)"
    by (simp add: to_int32_to_int32_add)
  also have "\<dots> = to_int32 (b + int k + 1)"
    by (simp only: Suc.IH to_int32_to_int32_add)
  also have "\<dots> = to_int32 (b + int (Suc k))"
    by (simp add: algebra_simps)
  finally show ?case .
qed

lemma epoch_after_neq:
  assumes "i < j" and "j - i < 4294967296"
  shows "epoch_after b i \<noteq> epoch_after b j"
proof
  assume "epoch_after b i = epoch_after b j"
  then have "to_int32 (b + int i) = to_int32 (b + int j)"
    using to_int32_epoch_after [of b i] to_int32_epoch_after [of b j] by simp
  then have "(4294967296::int) dvd (int i - int j)"
    by (simp add: to_int32_eq_iff)
  then have "(4294967296::int) dvd int (j - i)"
    using assms(1) by (simp add: of_nat_diff dvd_diff_commute)
  then have "(4294967296::nat) dvd (j - i)"
    by presburger
  with assms show False
    by (auto dest: dvd_imp_le)
qed

text \<open>
  Claim C7. The keys of an epoch are a function of the epoch value alone
  (\<^verbatim>\<open>getNextKeyIds\<close> returns \<open>epochKeys\<close> of the incremented counter); the three
  keys of one epoch are pairwise distinct; the triples of two distinct epochs share no
  key; two consecutive calls in a process use disjoint triples, and so do any two calls
  of a process that are fewer than \<open>2^32\<close> calls apart (the counter is a 32-bit
  \<^verbatim>\<open>int\<close> and wraps).
\<close>

theorem epoch_keys_collision_free:
  "distinct (key_list (epochKeys e))
   \<and> fst (getNextKeyIds b) = epochKeys (snd (getNextKeyIds b))
   \<and> (e1 \<noteq> e2 \<longrightarrow> set (key_list (epochKeys e1)) \<inter> set (key_list (epochKeys e2)) = {})
   \<and> set (key_list (fst (getNextKeyIds b)))
       \<inter> set (key_list (fst (getNextKeyIds (snd (getNextKeyIds b))))) = {}
   \<and> (i < j \<and> j - i < 4294967296 \<longrightarrow>
        set (key_list (fst (getNextKeyIds (epoch_after b i))))
        \<inter> set (key_list (fst (getNextKeyIds (epoch_after b j)))) = {})"
proof -
  have "to_int32 (to_int32 (b + 1) + 1) \<noteq> to_int32 (to_int32 (b + 1))"
    by (rule to_int32_succ_neq)
  moreover have "to_int32 (to_int32 (b + 1)) = to_int32 (b + 1)"
    by (rule to_int32_id [OF to_int32_range])
  ultimately have succ: "snd (getNextKeyIds b) \<noteq> snd (getNextKeyIds (snd (getNextKeyIds b)))"
    by (simp only: getNextKeyIds_epoch)
  have far: "i < j \<and> j - i < 4294967296 \<longrightarrow>
      snd (getNextKeyIds (epoch_after b i)) \<noteq> snd (getNextKeyIds (epoch_after b j))"
    using epoch_after_neq [of "Suc i" "Suc j" b] by simp
  show ?thesis
    using epochKeys_distinct [of e] epochKeys_disjoint [of e1 e2]
      epochKeys_disjoint [OF succ] far
      epochKeys_disjoint [of "snd (getNextKeyIds (epoch_after b i))" "snd (getNextKeyIds (epoch_after b j))"]
    by (simp only: getNextKeyIds_keys) blast
qed

text \<open>The hypotheses of C7 at epochs 1 and 2, and at the first two calls of a process.\<close>

theorem epoch_keys_collision_free_witness:
  "(1::int) \<noteq> 2 \<and> set (key_list (epochKeys 1)) \<inter> set (key_list (epochKeys 2)) = {}
   \<and> (0::nat) < Suc 0 \<and> Suc 0 - 0 < 4294967296
   \<and> set (key_list (fst (getNextKeyIds (epoch_after 0 0))))
        \<inter> set (key_list (fst (getNextKeyIds (epoch_after 0 (Suc 0))))) = {}"
proof -
  have "(1::int) \<noteq> 2" and "(0::nat) < Suc 0 \<and> Suc 0 - 0 < 4294967296"
    by simp_all
  then show ?thesis
    using epoch_keys_collision_free [of 0 0 1 2 0 "Suc 0"] by blast
qed

subsection \<open>splitString and the manifest\<close>

lemma find_at_absent: "c \<notin> set t \<Longrightarrow> find_at t [c] p = None"
  by (induction t arbitrary: p) auto

lemma find_at_first: "c \<notin> set t \<Longrightarrow> find_at (t @ c # rest) [c] p = Some (p + length t)"
  by (induction t arbitrary: p) auto

lemma find_str_absent: "c \<notin> set t \<Longrightarrow> find_str (pre @ t) [c] (length pre) = None"
  by (simp add: find_str_def find_at_absent)

lemma find_str_first:
  "c \<notin> set t \<Longrightarrow> find_str (pre @ t @ c # rest) [c] (length pre) = Some (length pre + length t)"
  by (simp add: find_str_def find_at_first)

lemma splitString_loop_join:
  "ts \<noteq> [] \<Longrightarrow> \<forall>t \<in> set ts. c \<notin> set t \<Longrightarrow>
   splitString_loop (pre @ join c ts) [c] (length pre) toks = Some (toks @ ts)"
proof (induction c ts arbitrary: pre toks rule: join.induct)
  case (1 c)
  then show ?case by simp
next
  case (2 c t)
  then show ?case
    by (subst splitString_loop.simps) (simp add: find_str_absent substr_from_def)
next
  case (3 c t u us)
  have "splitString_loop ((pre @ t @ [c]) @ join c (u # us)) [c] (length (pre @ t @ [c])) (toks @ [t])
        = Some ((toks @ [t]) @ u # us)"
    using 3 by (intro "3.IH") auto
  moreover have "find_str (pre @ t @ c # join c (u # us)) [c] (length pre) = Some (length pre + length t)"
    using 3 by (intro find_str_first) auto
  ultimately show ?case
    by (subst splitString_loop.simps) (simp add: substr_def)
qed

lemma splitString_join:
  "ts \<noteq> [] \<Longrightarrow> \<forall>t \<in> set ts. c \<notin> set t \<Longrightarrow> splitString (join c ts) [c] = Some ts"
  using splitString_loop_join [of ts c "[]" "[]"] by (simp add: splitString_def)

lemma join_snoc: "ts \<noteq> [] \<Longrightarrow> join c (ts @ [t]) = join c ts @ [c] @ t"
  by (induction c ts rule: join.induct) auto

lemma serialise_snoc:
  "serialise (ps @ [p]) = Some (formatWorkerInfos (serialise ps) (fst p) (snd p))"
  by (simp add: serialise_def split_beta)

lemma serialise_join: "ps \<noteq> [] \<Longrightarrow> serialise ps = Some (join CHR '','' (map record_text ps))"
proof (induction ps rule: rev_induct)
  case Nil
  then show ?case by simp
next
  case (snoc p ps)
  show ?case
  proof (cases "ps = []")
    case True
    then show ?thesis
      by (simp add: serialise_def record_text_def split_beta)
  next
    case False
    with snoc show ?thesis
      by (simp add: serialise_snoc join_snoc record_text_def formatWorkerInfos_def)
  qed
qed

lemma digits_no_minus: "CHR ''-'' \<notin> set (digits n)"
  using digits_all_isdigit isdigit_not_minus by blast

lemma digits_no_comma: "CHR '','' \<notin> set (digits n)"
  using digits_all_isdigit [of "CHR '',''" n] by (auto simp: isdigit_def)

lemma record_text_no_comma: "plain_pair p \<Longrightarrow> CHR '','' \<notin> set (record_text p)"
  by (simp add: plain_pair_def record_text_def formatWorkerInfos_def to_string_def digits_no_comma)

lemma parseWorkerInfo_record_text:
  assumes "plain_pair p"
  shows "parseWorkerInfo (record_text p) = Some (Inr p)"
proof -
  obtain name wid where p: "p = (name, wid)" by (cases p)
  from assms p have nm: "CHR ''-'' \<notin> set name" and w: "0 \<le> wid" "in_int_range wid"
    by (simp_all add: plain_pair_def in_int_range_def INT_MIN_def)
  have "record_text p = join CHR ''-'' [name, to_string wid]"
    by (simp add: p record_text_def formatWorkerInfos_def)
  moreover have "splitString (join CHR ''-'' [name, to_string wid]) ''-'' = Some [name, to_string wid]"
    using nm w by (intro splitString_join) (simp_all add: to_string_def digits_no_minus)
  ultimately show ?thesis
    using stoi_to_string [OF w(2)] by (simp add: parseWorkerInfo_def at_def p)
qed

lemma parse_records_record_text:
  "\<forall>p \<in> set ps. plain_pair p \<Longrightarrow> parse_records (map record_text ps) = Some (Inr ps)"
  by (induction ps) (simp_all add: parseWorkerInfo_record_text)

text \<open>
  The manifest of plain pairs, split at the commas and every record at its dash, gives
  the pairs back, in order. The empty sequence leaves no manifest, and nothing is
  parsed.
\<close>

lemma parseManifest_serialise:
  assumes "\<forall>p \<in> set ps. plain_pair p"
  shows "parseManifest (serialise ps) = Some (Inr ps)"
proof (cases "ps = []")
  case True
  then show ?thesis by (simp add: serialise_def parseManifest_def)
next
  case False
  have "splitString (join CHR '','' (map record_text ps)) '','' = Some (map record_text ps)"
    using False assms by (intro splitString_join) (simp_all add: record_text_no_comma)
  with False assms show ?thesis
    by (simp add: serialise_join parseManifest_def parse_records_record_text)
qed

subsection \<open>The fixed-size registry writes once\<close>

lemma other_keys_self:
  "workerId < worldSize \<Longrightarrow>
   other_keys workerId worldSize workerId = other_keys workerId worldSize (workerId + 1)"
  by (simp add: other_keys_def upto_rec1 [of workerId])

lemma other_keys_other:
  "workerId < worldSize \<Longrightarrow> workerId \<noteq> selfId \<Longrightarrow>
   other_keys selfId worldSize workerId
     = to_string workerId # other_keys selfId worldSize (workerId + 1)"
  by (simp add: other_keys_def upto_rec1 [of workerId])

lemma gets_of_Nil [simp]: "gets_of ks [] = []"
  by (simp add: gets_of_def)

lemma gets_of_Cons [simp]: "gets_of (k # ks) (v # vs) = GetEv k v # gets_of ks vs"
  by (simp add: gets_of_def)

lemma run_collectNames_loop_trace:
  "run (collectNames_loop selfId worldSize workerId nameToId) st = (out, st', tr) \<Longrightarrow>
   st' = st \<and> (\<exists>vs. length vs \<le> length (other_keys selfId worldSize workerId)
                  \<and> tr = gets_of (other_keys selfId worldSize workerId) vs)"
proof (induction selfId worldSize workerId nameToId arbitrary: out st' tr
       rule: collectNames_loop.induct)
  case (1 selfId worldSize workerId nameToId)
  note run = "1.prems"
  show ?case
  proof (cases "workerId < worldSize")
    case False
    with run show ?thesis
      by (subst (asm) collectNames_loop.simps) (auto intro: exI [of _ "[]"])
  next
    case lt: True
    show ?thesis
    proof (cases "workerId = selfId")
      case True
      with lt run have "run (collectNames_loop selfId worldSize (workerId + 1) nameToId) st = (out, st', tr)"
        by (subst (asm) collectNames_loop.simps) simp
      from "1.IH"(1) [OF lt True this] lt True show ?thesis
        by (simp add: other_keys_self)
    next
      case ne: False
      note keys = other_keys_other [OF lt ne]
      show ?thesis
      proof (cases "st (to_string workerId)")
        case None
        with lt ne run show ?thesis
          by (subst (asm) collectNames_loop.simps) (auto intro: exI [of _ "[]"])
      next
        case (Some workerName)
        show ?thesis
        proof (cases "find_name nameToId workerName")
          case (Some other)
          with \<open>st (to_string workerId) = Some workerName\<close> lt ne run
          have "st' = st" and "tr = [GetEv (to_string workerId) workerName]"
            by (subst (asm) collectNames_loop.simps, simp add: log_event_def)+
          then show ?thesis
            by (auto simp: keys intro!: exI [of _ "[workerName]"])
        next
          case None
          obtain out2 st2 tr2 where r2:
            "run (collectNames_loop selfId worldSize (workerId + 1)
                   (emplace nameToId workerName workerId)) st = (out2, st2, tr2)"
            by (metis prod_cases3)
          from "1.IH"(2) [OF lt ne None r2] obtain vs where
            vs: "st2 = st" "length vs \<le> length (other_keys selfId worldSize (workerId + 1))"
                "tr2 = gets_of (other_keys selfId worldSize (workerId + 1)) vs"
            by auto
          from None \<open>st (to_string workerId) = Some workerName\<close> lt ne run r2
          have "st' = st2" and "tr = GetEv (to_string workerId) workerName # tr2"
            by (subst (asm) collectNames_loop.simps, simp add: log_event_def)+
          with vs show ?thesis
            by (auto simp: keys intro!: exI [of _ "workerName # vs"])
        qed
      qed
    qed
  qed
qed

text \<open>
  Claim C8. Whatever the store holds and whatever the arguments are, a call of
  \<^verbatim>\<open>collectNames\<close> changes the store in one place only, its own name under the
  key of its own id, and that write is its first operation. Every later operation is a
  \<^verbatim>\<open>get\<close> on the key of another id below \<open>worldSize\<close>, in increasing order of the
  ids, up to the point where the call ends or blocks.
\<close>

theorem collectNames_single_write:
  "run (collectNames selfId selfName worldSize) st = (out, st', tr) \<Longrightarrow>
   st' = store_set st (to_string selfId) selfName
   \<and> (\<exists>vs. length vs \<le> length (other_keys selfId worldSize 0)
          \<and> tr = SetEv (to_string selfId) selfName # gets_of (other_keys selfId worldSize 0) vs)"
proof -
  assume r: "run (collectNames selfId selfName worldSize) st = (out, st', tr)"
  show ?thesis
  proof (cases "worldSize < 0")
    case True
    with r have "st' = store_set st (to_string selfId) selfName"
      and "tr = SetEv (to_string selfId) selfName # gets_of (other_keys selfId worldSize 0) []"
      by (auto simp: collectNames_def log_event_def)
    then show ?thesis
      by (intro conjI exI [of _ "[]"]) simp_all
  next
    case False
    obtain out2 st2 tr2 where r2:
      "run (collectNames_loop selfId worldSize 0 (emplace [] selfName selfId))
         (store_set st (to_string selfId) selfName) = (out2, st2, tr2)"
      by (metis prod_cases3)
    from r r2 False have "st' = st2" and "tr = SetEv (to_string selfId) selfName # tr2"
      by (simp_all add: collectNames_def log_event_def)
    with run_collectNames_loop_trace [OF r2] show ?thesis by simp
  qed
qed

text \<open>Worker 1 of 3, named b, with the two other names already published.\<close>

theorem collectNames_single_write_witness:
  "run (collectNames 1 ''b'' 3) [''0'' \<mapsto> ''a'', ''2'' \<mapsto> ''c'']
     = (Returned [(''b'', 1), (''a'', 0), (''c'', 2)],
        [''0'' \<mapsto> ''a'', ''2'' \<mapsto> ''c'', ''1'' \<mapsto> ''b''],
        [SetEv ''1'' ''b'', GetEv ''0'' ''a'', GetEv ''2'' ''c''])
   \<and> [''0'' \<mapsto> ''a'', ''2'' \<mapsto> ''c'', ''1'' \<mapsto> ''b'']
       = store_set [''0'' \<mapsto> ''a'', ''2'' \<mapsto> ''c''] (to_string 1) ''b''
   \<and> (\<exists>vs. length vs \<le> length (other_keys 1 3 0)
          \<and> [SetEv ''1'' ''b'', GetEv ''0'' ''a'', GetEv ''2'' ''c'']
              = SetEv (to_string 1) ''b'' # gets_of (other_keys 1 3 0) vs)"
proof -
  have r: "run (collectNames 1 ''b'' 3) [''0'' \<mapsto> ''a'', ''2'' \<mapsto> ''c'']
     = (Returned [(''b'', 1), (''a'', 0), (''c'', 2)],
        [''0'' \<mapsto> ''a'', ''2'' \<mapsto> ''c'', ''1'' \<mapsto> ''b''],
        [SetEv ''1'' ''b'', GetEv ''0'' ''a'', GetEv ''2'' ''c''])"
    by (simp add: collectNames_def collectNames_loop.simps emplace_def find_name_def
        log_event_def store_set_def to_string_def digits.simps digit_char_def)
  from collectNames_single_write [OF r] r show ?thesis by blast
qed

subsection \<open>The steps of the barrier\<close>

lemma epochKeys_neq:
  "epochKeys e = (processCountKey, activeCallCountKey, readyKey) \<Longrightarrow>
   processCountKey \<noteq> activeCallCountKey \<and> processCountKey \<noteq> readyKey
   \<and> activeCallCountKey \<noteq> readyKey"
  using epochKeys_distinct [of e] by (auto simp: key_list_def)

lemma store_add_result:
  "store_add st k delta = (st', newTotal) \<Longrightarrow>
   st' = st(k \<mapsto> to_string newTotal)"
  by (auto simp: store_add_def Let_def)

lemma run_stoi_result:
  "run (case stoi d of Inl e \<Rightarrow> Throw e | Inr v \<Rightarrow> Return v) st
   = (case stoi d of Inl e \<Rightarrow> Raised e | Inr v \<Rightarrow> Returned v, st, [])"
  by (simp split: sum.splits)

text \<open>
  A call of \<^verbatim>\<open>syncCallCount\<close> run alone, with nobody else writing: the two additions,
  the ready marker when the second answer, as an \<^verbatim>\<open>int\<close>, equals \<open>worldSize\<close>, and
  then the wait; the call stays blocked there when the marker is absent, and otherwise
  reads back the total of its own addition.
\<close>

lemma syncCallCount_alone:
  assumes call: "syncCallCount barrierId worldSize activeCalls = (prog, barrierId')"
    and run: "run prog st = (out, st', tr)"
    and keys: "epochKeys barrierId' = (processCountKey, activeCallCountKey, readyKey)"
    and add1: "store_add st activeCallCountKey activeCalls = (st1, total1)"
    and add2: "store_add st1 processCountKey 1 = (st2, total2)"
  shows "barrierId' = to_int32 (barrierId + 1)
    \<and> st' = (if to_int32 total2 = worldSize then store_set st2 readyKey [] else st2)
    \<and> tr = [AddEv activeCallCountKey activeCalls total1, AddEv processCountKey 1 total2]
           @ (if to_int32 total2 = worldSize then [SetEv readyKey []] else [])
           @ (if store_check st' readyKey
              then [WaitEv readyKey, GetEv activeCallCountKey (to_string total1)] else [])
    \<and> out = (if store_check st' readyKey
             then (case stoi (to_string total1) of Inl e \<Rightarrow> Raised e | Inr v \<Rightarrow> Returned v)
             else Blocked)"
proof -
  from call have b: "barrierId' = to_int32 (barrierId + 1)"
    and prog: "prog = syncCallCount_ops (epochKeys barrierId') worldSize activeCalls"
    by (auto simp: syncCallCount_def getNextKeyIds_def Let_def)
  note ne = epochKeys_neq [OF keys]
  have st1: "st1 = st(activeCallCountKey \<mapsto> to_string total1)"
    using add1 by (rule store_add_result)
  have st2: "st2 = st1(processCountKey \<mapsto> to_string total2)"
    using add2 by (rule store_add_result)
  have ack2: "st2 activeCallCountKey = Some (to_string total1)"
    using ne by (auto simp: st1 st2)
  have run': "run (syncCallCount_ops (processCountKey, activeCallCountKey, readyKey)
                    worldSize activeCalls) st = (out, st', tr)"
    using run by (simp add: prog keys)
  show ?thesis
  proof (cases "to_int32 total2 = worldSize")
    case True
    with run' ne ack2 have "st' = store_set st2 readyKey []"
      and "tr = [AddEv activeCallCountKey activeCalls total1, AddEv processCountKey 1 total2,
                 SetEv readyKey [], WaitEv readyKey, GetEv activeCallCountKey (to_string total1)]"
      and "out = (case stoi (to_string total1) of Inl e \<Rightarrow> Raised e | Inr v \<Rightarrow> Returned v)"
      by (simp_all add: syncCallCount_ops_def add1 add2 log_event_def store_check_def
          store_set_def run_stoi_result)
    with True b show ?thesis
      by (simp add: store_check_def store_set_def)
  next
    case False
    with run' have st': "st' = st2"
      by (auto simp add: syncCallCount_ops_def add1 add2 log_event_def ack2 run_stoi_result
          split: if_splits)
    show ?thesis
    proof (cases "store_check st2 readyKey")
      case True
      with False run' ne ack2 have
        "tr = [AddEv activeCallCountKey activeCalls total1, AddEv processCountKey 1 total2,
               WaitEv readyKey, GetEv activeCallCountKey (to_string total1)]"
        and "out = (case stoi (to_string total1) of Inl e \<Rightarrow> Raised e | Inr v \<Rightarrow> Returned v)"
        by (simp_all add: syncCallCount_ops_def add1 add2 log_event_def run_stoi_result)
      with True False b st' show ?thesis by simp
    next
      case blocked: False
      with False run' have
        "tr = [AddEv activeCallCountKey activeCalls total1, AddEv processCountKey 1 total2]"
        and "out = Blocked"
        by (simp_all add: syncCallCount_ops_def add1 add2 log_event_def)
      with blocked False b st' show ?thesis by simp
    qed
  qed
qed

text \<open>A group of one on an empty store, first epoch: the caller is the last arrival.\<close>

lemma syncCallCount_alone_example:
  "syncCallCount 0 1 5 = (syncCallCount_ops (epochKeys 1) 1 5, 1)
   \<and> epochKeys 1 = (''PROCESS_COUNT_ID_1'', ''ACTIVE_CALLS_ID_1'', ''READY_ID_1'')
   \<and> run (syncCallCount_ops (epochKeys 1) 1 5) Map.empty
       = (Returned 5,
          [''ACTIVE_CALLS_ID_1'' \<mapsto> ''5'', ''PROCESS_COUNT_ID_1'' \<mapsto> ''1'', ''READY_ID_1'' \<mapsto> []],
          [AddEv ''ACTIVE_CALLS_ID_1'' 5 5, AddEv ''PROCESS_COUNT_ID_1'' 1 1, SetEv ''READY_ID_1'' [],
           WaitEv ''READY_ID_1'', GetEv ''ACTIVE_CALLS_ID_1'' ''5''])
   \<and> (1::int) = to_int32 (0 + 1)"
proof -
  have k: "epochKeys 1 = (''PROCESS_COUNT_ID_1'', ''ACTIVE_CALLS_ID_1'', ''READY_ID_1'')"
    by (simp add: key_defs to_string_def digits.simps digit_char_def)
  have c: "syncCallCount 0 1 5 = (syncCallCount_ops (epochKeys 1) 1 5, 1)"
    by (simp add: syncCallCount_def getNextKeyIds_def to_int32_def)
  have a1: "store_add Map.empty ''ACTIVE_CALLS_ID_1'' 5 = ([''ACTIVE_CALLS_ID_1'' \<mapsto> ''5''], 5)"
    by (simp add: store_add_def to_string_def digits.simps digit_char_def)
  have a2: "store_add [''ACTIVE_CALLS_ID_1'' \<mapsto> ''5''] ''PROCESS_COUNT_ID_1'' 1
            = ([''ACTIVE_CALLS_ID_1'' \<mapsto> ''5'', ''PROCESS_COUNT_ID_1'' \<mapsto> ''1''], 1)"
    by (simp add: store_add_def to_string_def digits.simps digit_char_def)
  obtain out st' tr where r: "run (syncCallCount_ops (epochKeys 1) 1 5) Map.empty = (out, st', tr)"
    by (metis prod_cases3)
  have s5: "stoi ''5'' = Inr 5"
    by (simp add: stoi_def isspace_def isdigit_def digits_val_def digit_val_def in_int_range_def
        INT_MIN_def INT_MAX_def)
  have t5: "to_string 5 = ''5''"
    by (simp add: to_string_def digits.simps digit_char_def)
  from syncCallCount_alone [OF c r k a1 a2] r k c show ?thesis
    by (simp add: to_int32_def store_set_def store_check_def s5 t5)
qed

subsection \<open>The steps of the barrier among other workers\<close>

lemma exec_answered: "exec st p = Some (ev, st', p') \<Longrightarrow> answered st ev"
  by (cases p) (auto split: option.splits prod.splits if_splits)

lemma answered_exec: "answered st ev \<longleftrightarrow> (\<exists>p st' p'. exec st (p :: unit prog) = Some (ev, st', p'))"
proof
  assume a: "answered st ev"
  show "\<exists>p st' p'. exec st (p :: unit prog) = Some (ev, st', p')"
  proof (cases ev)
    case (SetEv k v)
    have "exec st (StoreSet k v (Return ())) = Some (ev, store_set st k v, Return ())"
      by (simp add: SetEv)
    then show ?thesis by blast
  next
    case (GetEv k v)
    with a have "exec st (StoreGet k (\<lambda>_. Return ())) = Some (ev, st, Return ())"
      by simp
    then show ?thesis by blast
  next
    case (AddEv k d t)
    with a have "exec st (StoreAdd k d (\<lambda>_. Return ())) = Some (ev, fst (store_add st k d), Return ())"
      by (simp split: prod.splits)
    then show ?thesis by blast
  next
    case (CompareSetEv k e d r)
    with a have "exec st (StoreCompareSet k e d (\<lambda>_. Return ()))
       = Some (ev, fst (store_compareSet st k e d), Return ())"
      by (simp split: prod.splits)
    then show ?thesis by blast
  next
    case (CheckEv k b)
    with a have "exec st (StoreCheck k (\<lambda>_. Return ())) = Some (ev, st, Return ())"
      by simp
    then show ?thesis by blast
  next
    case (WaitEv k)
    with a have "exec st (StoreWait k (Return ())) = Some (ev, st, Return ())"
      by simp
    then show ?thesis by blast
  qed
qed (auto dest: exec_answered)

lemma run_among_answered:
  "run_among p sts = (tr, rest) \<Longrightarrow> list_all (\<lambda>(st, ev). answered st ev) tr"
proof (induction sts arbitrary: p tr rest)
  case Nil
  then show ?case by simp
next
  case (Cons st sts)
  show ?case
  proof (cases "exec st p")
    case None
    with Cons show ?thesis by simp
  next
    case (Some x)
    obtain ev st' p' where x: "x = (ev, st', p')" by (cases x)
    obtain tr' r' where r: "run_among p' sts = (tr', r')" by (cases "run_among p' sts")
    from Cons.prems Some x r have "tr = (st, ev) # tr'" and "rest = r'" by simp_all
    with Cons.IH [OF r] exec_answered [OF Some [unfolded x]]
    show ?thesis by simp
  qed
qed

lemma run_among_stores:
  "run_among p sts = (tr, rest) \<Longrightarrow> set (map fst tr) \<subseteq> set sts"
proof (induction sts arbitrary: p tr rest)
  case Nil
  then show ?case by simp
next
  case (Cons st sts)
  show ?case
  proof (cases "exec st p")
    case None
    with Cons.prems have "run_among p sts = (tr, rest)" by simp
    from Cons.IH [OF this] show ?thesis by auto
  next
    case (Some x)
    obtain ev st' p' where x: "x = (ev, st', p')" by (cases x)
    obtain tr' r' where r: "run_among p' sts = (tr', r')" by (cases "run_among p' sts")
    from Cons.prems Some x r have "tr = (st, ev) # tr'" and "rest = r'" by simp_all
    with Cons.IH [OF r] show ?thesis by auto
  qed
qed

lemma run_among_finished: "finished p \<Longrightarrow> run_among p sts = ([], p)"
  by (induction sts) (cases p; simp)+

lemma run_among_StoreGet:
  assumes "run_among (StoreGet k f) sts = (tr, rest)"
  shows "(tr = [] \<and> rest = StoreGet k f)
       \<or> (\<exists>st v sts' tr'. tr = (st, GetEv k v) # tr' \<and> run_among (f v) sts' = (tr', rest))"
  using assms
proof (induction sts)
  case Nil
  then show ?case by simp
next
  case (Cons st sts)
  show ?case
  proof (cases "st k")
    case None
    with Cons show ?thesis by simp
  next
    case (Some v)
    obtain tr' r' where r: "run_among (f v) sts = (tr', r')" by (cases "run_among (f v) sts")
    with Cons.prems Some have "tr = (st, GetEv k v) # tr'" and "rest = r'" by simp_all
    with r show ?thesis by blast
  qed
qed

lemma run_among_StoreWait:
  assumes "run_among (StoreWait k p) sts = (tr, rest)"
  shows "(tr = [] \<and> rest = StoreWait k p)
       \<or> (\<exists>st sts' tr'. tr = (st, WaitEv k) # tr' \<and> run_among p sts' = (tr', rest))"
  using assms
proof (induction sts)
  case Nil
  then show ?case by simp
next
  case (Cons st sts)
  show ?case
  proof (cases "store_check st k")
    case False
    with Cons show ?thesis by simp
  next
    case True
    obtain tr' r' where r: "run_among p sts = (tr', r')" by (cases "run_among p sts")
    with Cons.prems True have "tr = (st, WaitEv k) # tr'" and "rest = r'" by simp_all
    with r show ?thesis by blast
  qed
qed

lemma run_among_StoreSet:
  assumes "run_among (StoreSet k v p) sts = (tr, rest)"
  shows "(tr = [] \<and> rest = StoreSet k v p)
       \<or> (\<exists>st sts' tr'. tr = (st, SetEv k v) # tr' \<and> run_among p sts' = (tr', rest))"
proof (cases sts)
  case Nil
  with assms show ?thesis by simp
next
  case (Cons st sts')
  obtain tr' r' where r: "run_among p sts' = (tr', r')" by (cases "run_among p sts'")
  with assms Cons have "tr = (st, SetEv k v) # tr'" and "rest = r'" by simp_all
  with r show ?thesis by blast
qed

lemma run_among_StoreAdd:
  assumes "run_among (StoreAdd k delta f) sts = (tr, rest)"
  shows "(tr = [] \<and> rest = StoreAdd k delta f)
       \<or> (\<exists>st newTotal sts' tr'. tr = (st, AddEv k delta newTotal) # tr'
             \<and> run_among (f newTotal) sts' = (tr', rest))"
proof (cases sts)
  case Nil
  with assms show ?thesis by simp
next
  case (Cons st sts')
  obtain st1 t where a: "store_add st k delta = (st1, t)" by (cases "store_add st k delta")
  obtain tr' r' where r: "run_among (f t) sts' = (tr', r')" by (cases "run_among (f t) sts'")
  with assms Cons a have "tr = (st, AddEv k delta t) # tr'" and "rest = r'" by simp_all
  with r show ?thesis by blast
qed

lemma finished_stoi_result:
  "finished (case stoi d of Inl e \<Rightarrow> Throw e | Inr v \<Rightarrow> Return v)"
  by (simp split: sum.splits)

lemma sync_read_among:
  assumes "run_among (sync_read (pck, ack, rk)) sts = (tr, rest)"
  shows "\<exists>data later. map snd tr @ later = [GetEv ack data]
     \<and> (finished rest \<longleftrightarrow> later = [])
     \<and> (later = [] \<longrightarrow> rest = (case stoi data of Inl e \<Rightarrow> Throw e | Inr v \<Rightarrow> Return v))"
proof -
  from run_among_StoreGet [OF assms [unfolded sync_read_def prod.case]]
  consider "tr = []" "rest = sync_read (pck, ack, rk)"
    | st v sts' tr' where "tr = (st, GetEv ack v) # tr'"
      "run_among (case stoi v of Inl e \<Rightarrow> Throw e | Inr w \<Rightarrow> Return w) sts' = (tr', rest)"
    by (auto simp: sync_read_def)
  then show ?thesis
  proof cases
    case 1
    then show ?thesis by (simp add: sync_read_def)
  next
    case 2
    with run_among_finished [OF finished_stoi_result, of v sts']
    have "tr = [(st, GetEv ack v)]"
      and "rest = (case stoi v of Inl e \<Rightarrow> Throw e | Inr w \<Rightarrow> Return w)"
      by simp_all
    then show ?thesis
      using finished_stoi_result [of v] by (intro exI [of _ v] exI [of _ "[]"]) simp
  qed
qed

lemma sync_wait_among:
  assumes "run_among (sync_wait (pck, ack, rk)) sts = (tr, rest)"
  shows "\<exists>data later. map snd tr @ later = [WaitEv rk, GetEv ack data]
     \<and> (finished rest \<longleftrightarrow> later = [])
     \<and> (later = [] \<longrightarrow> rest = (case stoi data of Inl e \<Rightarrow> Throw e | Inr v \<Rightarrow> Return v))"
proof -
  from run_among_StoreWait [OF assms [unfolded sync_wait_def prod.case]]
  consider "tr = []" "rest = sync_wait (pck, ack, rk)"
    | st sts' tr' where "tr = (st, WaitEv rk) # tr'"
      "run_among (sync_read (pck, ack, rk)) sts' = (tr', rest)"
    by (auto simp: sync_wait_def)
  then show ?thesis
  proof cases
    case 1
    then show ?thesis by (simp add: sync_wait_def)
  next
    case 2
    from sync_read_among [OF 2(2)] obtain data later where
      "map snd tr' @ later = [GetEv ack data]" "finished rest \<longleftrightarrow> later = []"
      "later = [] \<longrightarrow> rest = (case stoi data of Inl e \<Rightarrow> Throw e | Inr v \<Rightarrow> Return v)"
      by blast
    with 2(1) show ?thesis
      by (intro exI [of _ data] exI [of _ later]) simp
  qed
qed

lemma sync_marker_among:
  assumes "run_among (StoreSet rk [] (sync_wait (pck, ack, rk))) sts = (tr, rest)"
  shows "\<exists>data later. map snd tr @ later = [SetEv rk [], WaitEv rk, GetEv ack data]
     \<and> (finished rest \<longleftrightarrow> later = [])
     \<and> (later = [] \<longrightarrow> rest = (case stoi data of Inl e \<Rightarrow> Throw e | Inr v \<Rightarrow> Return v))"
proof -
  from run_among_StoreSet [OF assms]
  consider "tr = []" "rest = StoreSet rk [] (sync_wait (pck, ack, rk))"
    | st sts' tr' where "tr = (st, SetEv rk []) # tr'"
      "run_among (sync_wait (pck, ack, rk)) sts' = (tr', rest)"
    by auto
  then show ?thesis
  proof cases
    case 1
    then show ?thesis by simp
  next
    case 2
    from sync_wait_among [OF 2(2)] obtain data later where
      "map snd tr' @ later = [WaitEv rk, GetEv ack data]" "finished rest \<longleftrightarrow> later = []"
      "later = [] \<longrightarrow> rest = (case stoi data of Inl e \<Rightarrow> Throw e | Inr v \<Rightarrow> Return v)"
      by blast
    with 2(1) show ?thesis
      by (intro exI [of _ data] exI [of _ later]) simp
  qed
qed

lemma syncCallCount_ops_among:
  assumes "run_among (syncCallCount_ops (pck, ack, rk) W a) sts = (tr, rest)"
  shows "\<exists>total1 total2 data later.
       map snd tr @ later
         = [AddEv ack a total1, AddEv pck 1 total2]
           @ (if to_int32 total2 = W then [SetEv rk []] else [])
           @ [WaitEv rk, GetEv ack data]
     \<and> (finished rest \<longleftrightarrow> later = [])
     \<and> (later = [] \<longrightarrow> rest = (case stoi data of Inl e \<Rightarrow> Throw e | Inr v \<Rightarrow> Return v))"
proof -
  let ?after = "\<lambda>total2. if to_int32 total2 = W then StoreSet rk [] (sync_wait (pck, ack, rk))
                          else sync_wait (pck, ack, rk)"
  let ?second = "StoreAdd pck 1 ?after"
  have ops: "syncCallCount_ops (pck, ack, rk) W a = StoreAdd ack a (\<lambda>total1. ?second)"
    by (simp add: syncCallCount_ops_def sync_wait_def sync_read_def Let_def cong: if_cong)
  from run_among_StoreAdd [OF assms [unfolded ops]]
  consider "tr = []" "rest = StoreAdd ack a (\<lambda>total1. ?second)"
    | st total1 sts' tr' where "tr = (st, AddEv ack a total1) # tr'"
      "run_among ?second sts' = (tr', rest)"
    by auto
  then show ?thesis
  proof cases
    case 1
    then show ?thesis by simp
  next
    case first: 2
    from run_among_StoreAdd [OF first(2)]
    consider "tr' = []" "rest = ?second"
      | st2 total2 sts2 tr2 where "tr' = (st2, AddEv pck 1 total2) # tr2"
        "run_among (?after total2) sts2 = (tr2, rest)"
      by auto
    then show ?thesis
    proof cases
      case 1
      with first(1) show ?thesis by simp
    next
      case second: 2
      show ?thesis
      proof (cases "to_int32 total2 = W")
        case True
        with second(2) have "run_among (StoreSet rk [] (sync_wait (pck, ack, rk))) sts2 = (tr2, rest)"
          by simp
        from sync_marker_among [OF this] obtain data later where
          "map snd tr2 @ later = [SetEv rk [], WaitEv rk, GetEv ack data]"
          "finished rest \<longleftrightarrow> later = []"
          "later = [] \<longrightarrow> rest = (case stoi data of Inl e \<Rightarrow> Throw e | Inr v \<Rightarrow> Return v)"
          by blast
        with first(1) second(1) True show ?thesis
          by (intro exI [of _ total1] exI [of _ total2] exI [of _ data] exI [of _ later]) simp
      next
        case False
        with second(2) have "run_among (sync_wait (pck, ack, rk)) sts2 = (tr2, rest)"
          by simp
        from sync_wait_among [OF this] obtain data later where
          "map snd tr2 @ later = [WaitEv rk, GetEv ack data]"
          "finished rest \<longleftrightarrow> later = []"
          "later = [] \<longrightarrow> rest = (case stoi data of Inl e \<Rightarrow> Throw e | Inr v \<Rightarrow> Return v)"
          by blast
        with first(1) second(1) False show ?thesis
          by (intro exI [of _ total1] exI [of _ total2] exI [of _ data] exI [of _ later]) simp
      qed
    qed
  qed
qed

text \<open>
  In a group, what one worker does is a call among the others: for every schedule
  there is a sequence of stores, one for each step of the worker, on which
  \<open>run_among\<close> takes the worker's call to what the schedule leaves of it.
\<close>

lemma crun_run_among:
  assumes "crun (st, ps) sched = Some (st', ps')" and "i < length ps"
  shows "\<exists>sts tr. run_among (ps ! i) sts = (tr, ps' ! i) \<and> map fst tr = sts"
  using assms
proof (induction sched arbitrary: st ps)
  case Nil
  then have "run_among (ps ! i) [] = ([], ps' ! i) \<and> map fst ([] :: (store \<times> event) list) = []"
    by simp
  then show ?case by blast
next
  case (Cons j sched)
  from Cons.prems(1) obtain c where c: "cstep (st, ps) j = Some c" and rest: "crun c sched = Some (st', ps')"
    by (auto split: option.splits)
  from c obtain ev st1 p1 where j: "j < length ps" and e: "exec st (ps ! j) = Some (ev, st1, p1)"
    and c': "c = (st1, ps[j := p1])"
    by (auto simp: cstep_def split: if_splits option.splits)
  from Cons.prems(2) have len: "i < length (ps[j := p1])" by simp
  from Cons.IH [OF rest [unfolded c'] len] obtain tr where
    r: "run_among (ps[j := p1] ! i) (map fst tr) = (tr, ps' ! i)" by auto
  show ?case
  proof (cases "j = i")
    case True
    with r Cons.prems(2) have "run_among p1 (map fst tr) = (tr, ps' ! i)" by simp
    with e True have "run_among (ps ! i) (map fst ((st, ev) # tr)) = ((st, ev) # tr, ps' ! i)"
      by simp
    then show ?thesis by blast
  next
    case False
    with r show ?thesis by auto
  qed
qed

text \<open>
  Claim C6. A call of \<^verbatim>\<open>syncCallCount\<close> increments the process-local counter by one
  (wrapping at 32 bits) and works on the three keys of the new epoch. Take the call
  among other workers, on any sequence of stores that it finds at its turns. The
  operations that it performs are, in this order, the addition of \<open>activeCalls\<close> to
  the active-call key, the addition of 1 to the process-count key, the write of the
  empty ready marker, which is there exactly when the answer to the second addition,
  as an \<^verbatim>\<open>int\<close>, equals \<open>worldSize\<close>, the wait on the ready key, and the read of the
  active-call key; the call has performed a beginning of this sequence when its turns
  run out or it stays blocked. Every operation is answered by the store of its turn:
  the wait passes only on a store that holds the ready key, and the text read is what
  the active-call key holds at the turn of the read, whatever the first addition
  answered. The call has ended exactly when the whole sequence is performed, and then
  it returns the number that \<^verbatim>\<open>std::stoi\<close> finds in the text read (or throws what
  \<^verbatim>\<open>std::stoi\<close> throws).
\<close>

theorem syncCallCount_protocol:
  assumes keys: "epochKeys (snd (syncCallCount barrierId worldSize activeCalls))
                 = (processCountKey, activeCallCountKey, readyKey)"
    and among: "run_among (fst (syncCallCount barrierId worldSize activeCalls)) sts = (tr, rest)"
  shows "snd (syncCallCount barrierId worldSize activeCalls) = to_int32 (barrierId + 1)
    \<and> list_all (\<lambda>(st, ev). answered st ev) tr
    \<and> set (map fst tr) \<subseteq> set sts
    \<and> (\<exists>total1 total2 activeCallCountData later.
          map snd tr @ later
            = [AddEv activeCallCountKey activeCalls total1, AddEv processCountKey 1 total2]
              @ (if to_int32 total2 = worldSize then [SetEv readyKey []] else [])
              @ [WaitEv readyKey, GetEv activeCallCountKey activeCallCountData]
        \<and> (finished rest \<longleftrightarrow> later = [])
        \<and> (later = [] \<longrightarrow>
             rest = (case stoi activeCallCountData of
                       Inl e \<Rightarrow> Throw e
                     | Inr totalCallCount \<Rightarrow> Return totalCallCount)))"
proof -
  have b: "snd (syncCallCount barrierId worldSize activeCalls) = to_int32 (barrierId + 1)"
    and prog: "fst (syncCallCount barrierId worldSize activeCalls)
       = syncCallCount_ops (epochKeys (snd (syncCallCount barrierId worldSize activeCalls)))
           worldSize activeCalls"
    by (simp_all add: syncCallCount_def getNextKeyIds_def Let_def)
  from among have r: "run_among
      (syncCallCount_ops (processCountKey, activeCallCountKey, readyKey) worldSize activeCalls) sts
      = (tr, rest)"
    by (simp add: prog keys)
  from b run_among_answered [OF among] run_among_stores [OF among] syncCallCount_ops_among [OF r]
  show ?thesis by blast
qed

text \<open>
  Worker 1 of 2 in the first epoch, contributing 1: its additions answer 1 and 1, so it
  writes no marker; at its third turn the ready key is absent and it stays blocked;
  the other worker then adds its own 1 to both counters and writes the marker; the
  wait passes and the call returns the 2 that it reads, not the 1 of its own addition.
\<close>

theorem syncCallCount_protocol_witness:
  "epochKeys (snd (syncCallCount 0 2 1))
     = (''PROCESS_COUNT_ID_1'', ''ACTIVE_CALLS_ID_1'', ''READY_ID_1'')
   \<and> run_among (fst (syncCallCount 0 2 1))
       [Map.empty,
        [''ACTIVE_CALLS_ID_1'' \<mapsto> ''1''],
        [''ACTIVE_CALLS_ID_1'' \<mapsto> ''1'', ''PROCESS_COUNT_ID_1'' \<mapsto> ''1''],
        [''ACTIVE_CALLS_ID_1'' \<mapsto> ''2'', ''PROCESS_COUNT_ID_1'' \<mapsto> ''2'', ''READY_ID_1'' \<mapsto> []],
        [''ACTIVE_CALLS_ID_1'' \<mapsto> ''2'', ''PROCESS_COUNT_ID_1'' \<mapsto> ''2'', ''READY_ID_1'' \<mapsto> []]]
     = ([(Map.empty, AddEv ''ACTIVE_CALLS_ID_1'' 1 1),
         ([''ACTIVE_CALLS_ID_1'' \<mapsto> ''1''], AddEv ''PROCESS_COUNT_ID_1'' 1 1),
         ([''ACTIVE_CALLS_ID_1'' \<mapsto> ''2'', ''PROCESS_COUNT_ID_1'' \<mapsto> ''2'', ''READY_ID_1'' \<mapsto> []],
          WaitEv ''READY_ID_1''),
         ([''ACTIVE_CALLS_ID_1'' \<mapsto> ''2'', ''PROCESS_COUNT_ID_1'' \<mapsto> ''2'', ''READY_ID_1'' \<mapsto> []],
          GetEv ''ACTIVE_CALLS_ID_1'' ''2'')],
        Return 2)
   \<and> snd (syncCallCount 0 2 1) = to_int32 (0 + 1)
   \<and> (\<exists>total1 total2 activeCallCountData later.
          [AddEv ''ACTIVE_CALLS_ID_1'' 1 1, AddEv ''PROCESS_COUNT_ID_1'' 1 1,
           WaitEv ''READY_ID_1'', GetEv ''ACTIVE_CALLS_ID_1'' ''2''] @ later
            = [AddEv ''ACTIVE_CALLS_ID_1'' 1 total1, AddEv ''PROCESS_COUNT_ID_1'' 1 total2]
              @ (if to_int32 total2 = 2 then [SetEv ''READY_ID_1'' []] else [])
              @ [WaitEv ''READY_ID_1'', GetEv ''ACTIVE_CALLS_ID_1'' activeCallCountData]
        \<and> (finished (Return 2 :: int prog) \<longleftrightarrow> later = [])
        \<and> (later = [] \<longrightarrow>
             Return 2 = (case stoi activeCallCountData of
                       Inl e \<Rightarrow> Throw e
                     | Inr totalCallCount \<Rightarrow> Return totalCallCount)))"
proof -
  have k: "epochKeys (snd (syncCallCount 0 2 1))
     = (''PROCESS_COUNT_ID_1'', ''ACTIVE_CALLS_ID_1'', ''READY_ID_1'')"
    by (simp add: syncCallCount_def getNextKeyIds_def to_int32_def key_defs to_string_def
        digits.simps digit_char_def)
  have s2: "stoi ''2'' = Inr 2"
    by (simp add: stoi_def isspace_def isdigit_def digits_val_def digit_val_def in_int_range_def
        INT_MIN_def INT_MAX_def)
  have r: "run_among (fst (syncCallCount 0 2 1))
       [Map.empty,
        [''ACTIVE_CALLS_ID_1'' \<mapsto> ''1''],
        [''ACTIVE_CALLS_ID_1'' \<mapsto> ''1'', ''PROCESS_COUNT_ID_1'' \<mapsto> ''1''],
        [''ACTIVE_CALLS_ID_1'' \<mapsto> ''2'', ''PROCESS_COUNT_ID_1'' \<mapsto> ''2'', ''READY_ID_1'' \<mapsto> []],
        [''ACTIVE_CALLS_ID_1'' \<mapsto> ''2'', ''PROCESS_COUNT_ID_1'' \<mapsto> ''2'', ''READY_ID_1'' \<mapsto> []]]
     = ([(Map.empty, AddEv ''ACTIVE_CALLS_ID_1'' 1 1),
         ([''ACTIVE_CALLS_ID_1'' \<mapsto> ''1''], AddEv ''PROCESS_COUNT_ID_1'' 1 1),
         ([''ACTIVE_CALLS_ID_1'' \<mapsto> ''2'', ''PROCESS_COUNT_ID_1'' \<mapsto> ''2'', ''READY_ID_1'' \<mapsto> []],
          WaitEv ''READY_ID_1''),
         ([''ACTIVE_CALLS_ID_1'' \<mapsto> ''2'', ''PROCESS_COUNT_ID_1'' \<mapsto> ''2'', ''READY_ID_1'' \<mapsto> []],
          GetEv ''ACTIVE_CALLS_ID_1'' ''2'')],
        Return 2)"
    by (simp add: syncCallCount_def getNextKeyIds_def to_int32_def key_defs to_string_def
        digits.simps digit_char_def syncCallCount_ops_def store_add_def counter_val_def
        store_check_def s2 Let_def)
  note t = syncCallCount_protocol [OF k r, unfolded list.map snd_conv]
  from t k r show ?thesis
    by blast
qed

subsection \<open>Name collisions in the fixed-size registry\<close>

lemma find_name_None_iff: "find_name tbl name = None \<longleftrightarrow> name \<notin> fst ` set tbl"
  by (simp add: find_name_def map_of_eq_None_iff)

lemma find_name_SomeD: "find_name tbl name = Some wid \<Longrightarrow> (name, wid) \<in> set tbl"
  by (simp add: find_name_def map_of_SomeD)

lemma emplace_fresh: "find_name tbl name = None \<Longrightarrow> emplace tbl name wid = tbl @ [(name, wid)]"
  by (simp add: emplace_def)

lemma emplace_Nil [simp]: "emplace [] name wid = [(name, wid)]"
  by (simp add: emplace_def find_name_def)

lemma ids_step: "0 \<le> k \<Longrightarrow> insert k (insert s {0..<k}) = insert s {0..<k + 1}" for k s :: int
  by auto

lemma ids_self: "insert k {0..<k} = insert k {0..<k + 1}" for k :: int
  by auto

lemma collectNames_loop_run:
  assumes "run (collectNames_loop selfId worldSize workerId nameToId) st = (out, st', tr)"
    and "0 \<le> workerId"
    and "distinct (map fst nameToId)"
    and "distinct (map snd nameToId)"
    and "snd ` set nameToId = insert selfId {0..<workerId}"
    and "\<forall>(name, wid) \<in> set nameToId. st (to_string wid) = Some name"
  shows "case out of
           Returned t \<Rightarrow>
             distinct (map fst t) \<and> distinct (map snd t) \<and> set nameToId \<subseteq> set t
             \<and> snd ` set t = insert selfId {0..<max workerId worldSize}
             \<and> (\<forall>(name, wid) \<in> set t. st (to_string wid) = Some name)
         | Raised e \<Rightarrow>
             (\<exists>name a b. e = NameCollision name a b \<and> a \<noteq> b
                \<and> a \<in> insert selfId {0..<worldSize} \<and> b \<in> {0..<worldSize}
                \<and> st (to_string a) = Some name \<and> st (to_string b) = Some name)
         | Blocked \<Rightarrow> (\<exists>j \<in> {workerId..<worldSize}. j \<noteq> selfId \<and> st (to_string j) = None)
         | Diverged \<Rightarrow> False"
  using assms
proof (induction selfId worldSize workerId nameToId arbitrary: out st' tr
       rule: collectNames_loop.induct)
  case (1 selfId worldSize workerId nameToId)
  note run = "1.prems"(1) and inv = "1.prems"(2-)
  show ?case
  proof (cases "workerId < worldSize")
    case False
    with run have "out = Returned nameToId"
      by (subst (asm) collectNames_loop.simps) auto
    with False inv show ?thesis by (simp add: max_def)
  next
    case lt: True
    show ?thesis
    proof (cases "workerId = selfId")
      case True
      with lt run have r: "run (collectNames_loop selfId worldSize (workerId + 1) nameToId) st = (out, st', tr)"
        by (subst (asm) collectNames_loop.simps) simp
      have ids: "snd ` set nameToId = insert selfId {0..<workerId + 1}"
        using inv(4) True ids_self [of workerId] by simp
      have "case out of
           Returned t \<Rightarrow>
             distinct (map fst t) \<and> distinct (map snd t) \<and> set nameToId \<subseteq> set t
             \<and> snd ` set t = insert selfId {0..<max (workerId + 1) worldSize}
             \<and> (\<forall>(name, wid) \<in> set t. st (to_string wid) = Some name)
         | Raised e \<Rightarrow>
             (\<exists>name a b. e = NameCollision name a b \<and> a \<noteq> b
                \<and> a \<in> insert selfId {0..<worldSize} \<and> b \<in> {0..<worldSize}
                \<and> st (to_string a) = Some name \<and> st (to_string b) = Some name)
         | Blocked \<Rightarrow> (\<exists>j \<in> {workerId + 1..<worldSize}. j \<noteq> selfId \<and> st (to_string j) = None)
         | Diverged \<Rightarrow> False"
        using inv by (intro "1.IH"(1) [OF lt True r] ids) simp_all
      moreover have "max (workerId + 1) worldSize = max workerId worldSize"
        using lt by simp
      ultimately show ?thesis
        by (cases out) auto
    next
      case ne: False
      show ?thesis
      proof (cases "st (to_string workerId)")
        case None
        with lt ne run have "out = Blocked"
          by (subst (asm) collectNames_loop.simps) auto
        with None lt ne show ?thesis by auto
      next
        case (Some workerName)
        note present = this
        show ?thesis
        proof (cases "find_name nameToId workerName")
          case (Some other)
          with present lt ne run have out: "out = Raised (NameCollision workerName other workerId)"
            by (subst (asm) collectNames_loop.simps) (auto simp: log_event_def)
          from Some have mem: "(workerName, other) \<in> set nameToId"
            by (rule find_name_SomeD)
          with inv(5) have "st (to_string other) = Some workerName" by auto
          moreover from mem inv(4) have o: "other \<in> insert selfId {0..<workerId}"
            by (metis image_eqI snd_conv)
          moreover from o ne have "other \<noteq> workerId" by auto
          moreover from o lt have "other \<in> insert selfId {0..<worldSize}" by auto
          ultimately show ?thesis
            using out present lt inv(1) by simp
        next
          case None
          let ?t = "emplace nameToId workerName workerId"
          have t: "?t = nameToId @ [(workerName, workerId)]"
            using None by (rule emplace_fresh)
          obtain out2 st2 tr2 where r2:
            "run (collectNames_loop selfId worldSize (workerId + 1) ?t) st = (out2, st2, tr2)"
            by (metis prod_cases3)
          from None present lt ne run r2 have out: "out = out2"
            by (subst (asm) collectNames_loop.simps) (auto simp: log_event_def)
          have fresh_id: "workerId \<notin> snd ` set nameToId"
            using inv(4) ne by auto
          have "case out2 of
             Returned t \<Rightarrow>
               distinct (map fst t) \<and> distinct (map snd t) \<and> set ?t \<subseteq> set t
               \<and> snd ` set t = insert selfId {0..<max (workerId + 1) worldSize}
               \<and> (\<forall>(name, wid) \<in> set t. st (to_string wid) = Some name)
           | Raised e \<Rightarrow>
               (\<exists>name a b. e = NameCollision name a b \<and> a \<noteq> b
                  \<and> a \<in> insert selfId {0..<worldSize} \<and> b \<in> {0..<worldSize}
                  \<and> st (to_string a) = Some name \<and> st (to_string b) = Some name)
           | Blocked \<Rightarrow> (\<exists>j \<in> {workerId + 1..<worldSize}. j \<noteq> selfId \<and> st (to_string j) = None)
           | Diverged \<Rightarrow> False"
          proof (intro "1.IH"(2) [OF lt ne None r2])
            show "0 \<le> workerId + 1" using inv(1) by simp
            show "distinct (map fst ?t)"
              using inv(2) None by (simp add: t find_name_None_iff)
            show "distinct (map snd ?t)"
              using inv(3) fresh_id by (simp add: t)
            show "snd ` set ?t = insert selfId {0..<workerId + 1}"
              using inv(4) ids_step [OF inv(1), of selfId] by (simp add: t)
            show "\<forall>(name, wid) \<in> set ?t. st (to_string wid) = Some name"
              using inv(5) present by (simp add: t)
          qed
          moreover have "max (workerId + 1) worldSize = max workerId worldSize"
            using lt by simp
          ultimately show ?thesis
            unfolding out by (cases out2) (auto simp: t)
        qed
      qed
    qed
  qed
qed


lemma run_collectNames:
  "0 \<le> worldSize \<Longrightarrow>
   run (collectNames selfId selfName worldSize) st
   = log_event (SetEv (to_string selfId) selfName)
       (run (collectNames_loop selfId worldSize 0 [(selfName, selfId)])
          (st(to_string selfId \<mapsto> selfName)))"
  by (simp add: collectNames_def store_set_def)

text \<open>A negative \<open>worldSize\<close>: the write, then the failure of \<^verbatim>\<open>reserve\<close>.\<close>

lemma run_collectNames_reserve:
  "worldSize < 0 \<Longrightarrow>
   run (collectNames selfId selfName worldSize) st
   = (Raised ReserveFailure, st(to_string selfId \<mapsto> selfName),
      [SetEv (to_string selfId) selfName])"
  by (simp add: collectNames_def store_set_def log_event_def)

lemma collectNames_run:
  assumes "run (collectNames selfId selfName worldSize) st = (out, st', tr)"
  shows "st' = st(to_string selfId \<mapsto> selfName)"
    and "case out of
           Returned t \<Rightarrow>
             distinct (map fst t) \<and> distinct (map snd t) \<and> (selfName, selfId) \<in> set t
             \<and> snd ` set t = insert selfId {0..<worldSize}
             \<and> (\<forall>(name, wid) \<in> set t. st' (to_string wid) = Some name)
         | Raised e \<Rightarrow>
             (worldSize < 0 \<and> e = ReserveFailure)
             \<or> (\<exists>name a b. e = NameCollision name a b \<and> a \<noteq> b
                \<and> a \<in> insert selfId {0..<worldSize} \<and> b \<in> {0..<worldSize}
                \<and> st' (to_string a) = Some name \<and> st' (to_string b) = Some name)
         | Blocked \<Rightarrow> (\<exists>j \<in> {0..<worldSize}. j \<noteq> selfId \<and> st' (to_string j) = None)
         | Diverged \<Rightarrow> False"
proof -
  let ?st1 = "st(to_string selfId \<mapsto> selfName)"
  have both: "st' = ?st1 \<and> (case out of
           Returned t \<Rightarrow>
             distinct (map fst t) \<and> distinct (map snd t) \<and> (selfName, selfId) \<in> set t
             \<and> snd ` set t = insert selfId {0..<worldSize}
             \<and> (\<forall>(name, wid) \<in> set t. st' (to_string wid) = Some name)
         | Raised e \<Rightarrow>
             (worldSize < 0 \<and> e = ReserveFailure)
             \<or> (\<exists>name a b. e = NameCollision name a b \<and> a \<noteq> b
                \<and> a \<in> insert selfId {0..<worldSize} \<and> b \<in> {0..<worldSize}
                \<and> st' (to_string a) = Some name \<and> st' (to_string b) = Some name)
         | Blocked \<Rightarrow> (\<exists>j \<in> {0..<worldSize}. j \<noteq> selfId \<and> st' (to_string j) = None)
         | Diverged \<Rightarrow> False)"
  proof (cases "worldSize < 0")
    case True
    from assms run_collectNames_reserve [OF True, of selfId selfName st]
    have "out = Raised ReserveFailure" and "st' = ?st1"
      by simp_all
    with True show ?thesis by simp
  next
    case False
    obtain out2 st2 tr2 where r2:
      "run (collectNames_loop selfId worldSize 0 [(selfName, selfId)]) ?st1 = (out2, st2, tr2)"
      by (metis prod_cases3)
    from assms r2 False have eq: "out = out2" "st' = st2"
      by (simp_all add: run_collectNames log_event_def)
    have st2: "st2 = ?st1"
      using run_collectNames_loop_trace [OF r2] by simp
    have "case out2 of
             Returned t \<Rightarrow>
               distinct (map fst t) \<and> distinct (map snd t) \<and> set [(selfName, selfId)] \<subseteq> set t
               \<and> snd ` set t = insert selfId {0..<max 0 worldSize}
               \<and> (\<forall>(name, wid) \<in> set t. ?st1 (to_string wid) = Some name)
           | Raised e \<Rightarrow>
               (\<exists>name a b. e = NameCollision name a b \<and> a \<noteq> b
                  \<and> a \<in> insert selfId {0..<worldSize} \<and> b \<in> {0..<worldSize}
                  \<and> ?st1 (to_string a) = Some name \<and> ?st1 (to_string b) = Some name)
           | Blocked \<Rightarrow> (\<exists>j \<in> {0..<worldSize}. j \<noteq> selfId \<and> ?st1 (to_string j) = None)
           | Diverged \<Rightarrow> False"
      by (rule collectNames_loop_run [OF r2]) simp_all
    moreover have "{0..<max 0 worldSize} = {0..<worldSize}"
      by auto
    ultimately show ?thesis
      unfolding eq st2 by (cases out2) simp_all
  qed
  from both show "st' = ?st1"
    by (rule conjunct1)
  from both show "case out of
           Returned t \<Rightarrow>
             distinct (map fst t) \<and> distinct (map snd t) \<and> (selfName, selfId) \<in> set t
             \<and> snd ` set t = insert selfId {0..<worldSize}
             \<and> (\<forall>(name, wid) \<in> set t. st' (to_string wid) = Some name)
         | Raised e \<Rightarrow>
             (worldSize < 0 \<and> e = ReserveFailure)
             \<or> (\<exists>name a b. e = NameCollision name a b \<and> a \<noteq> b
                \<and> a \<in> insert selfId {0..<worldSize} \<and> b \<in> {0..<worldSize}
                \<and> st' (to_string a) = Some name \<and> st' (to_string b) = Some name)
         | Blocked \<Rightarrow> (\<exists>j \<in> {0..<worldSize}. j \<noteq> selfId \<and> st' (to_string j) = None)
         | Diverged \<Rightarrow> False"
    by (rule conjunct2)
qed

lemma table_names_inj:
  assumes "distinct (map fst t)"
    and "snd ` set t = ids"
    and "\<forall>(name, wid) \<in> set t. st (to_string wid) = Some name"
  shows "inj_on (\<lambda>j. st (to_string j)) ids"
proof (rule inj_onI)
  fix a b
  assume a: "a \<in> ids" and b: "b \<in> ids" and eq: "st (to_string a) = st (to_string b)"
  from a assms(2) obtain na where na: "(na, a) \<in> set t" by force
  from b assms(2) obtain nb where nb: "(nb, b) \<in> set t" by force
  from na assms(3) have "st (to_string a) = Some na" by auto
  moreover from nb assms(3) have "st (to_string b) = Some nb" by auto
  ultimately have "na = nb" using eq by simp
  with na nb assms(1) show "a = b"
    by (metis eq_key_imp_eq_value)
qed

text \<open>
  Claim C3. Take a call of \<^verbatim>\<open>collectNames\<close> for a group of size \<open>worldSize\<close>, not
  negative (a negative size makes \<^verbatim>\<open>reserve\<close> fail before any name is read, see
  \<open>run_collectNames_reserve\<close>), and the store \<open>st'\<close> it leaves, which differs from the
  initial one by the caller's own name: the name of id \<open>j\<close> is what \<open>st'\<close> holds under
  the key of \<open>j\<close>, over the caller's id and the ids below \<open>worldSize\<close>. The only error
  the call raises is a NameCollision, and it carries two distinct ids of the group and
  the name that both resolve to. When every id of the group has a name, the call raises
  it if two distinct ids resolve to one name, and returns a table if the names are
  pairwise distinct.
\<close>

theorem collectNames_name_collision:
  assumes "run (collectNames selfId selfName worldSize) st = (out, st', tr)"
    and "0 \<le> worldSize"
  shows "(\<forall>e. out = Raised e \<longrightarrow>
            (\<exists>name a b. e = NameCollision name a b \<and> a \<noteq> b
               \<and> a \<in> insert selfId {0..<worldSize} \<and> b \<in> insert selfId {0..<worldSize}
               \<and> st' (to_string a) = Some name \<and> st' (to_string b) = Some name))
     \<and> ((\<forall>j \<in> {0..<worldSize}. st' (to_string j) \<noteq> None) \<longrightarrow>
          (if inj_on (\<lambda>j. st' (to_string j)) (insert selfId {0..<worldSize})
           then \<exists>t. out = Returned t else \<exists>e. out = Raised e))"
proof -
  note c = collectNames_run(2) [OF assms(1)]
  have raised: "\<exists>name a b. e = NameCollision name a b \<and> a \<noteq> b
               \<and> a \<in> insert selfId {0..<worldSize} \<and> b \<in> insert selfId {0..<worldSize}
               \<and> st' (to_string a) = Some name \<and> st' (to_string b) = Some name"
    if "out = Raised e" for e
    using c that assms(2) by auto
  have returned: "inj_on (\<lambda>j. st' (to_string j)) (insert selfId {0..<worldSize})"
    if "out = Returned t" for t
    using c that by (intro table_names_inj [of t]) simp_all
  have "\<exists>t. out = Returned t"
    if "\<forall>j \<in> {0..<worldSize}. st' (to_string j) \<noteq> None"
      and inj: "inj_on (\<lambda>j. st' (to_string j)) (insert selfId {0..<worldSize})"
  proof (cases out)
    case (Raised e)
    from raised [OF this] inj show ?thesis
      by (metis inj_onD)
  qed (use c that in auto)
  moreover have "\<exists>e. out = Raised e"
    if "\<forall>j \<in> {0..<worldSize}. st' (to_string j) \<noteq> None"
      and "\<not> inj_on (\<lambda>j. st' (to_string j)) (insert selfId {0..<worldSize})"
    using returned c that by (cases out) auto
  ultimately show ?thesis
    using raised by auto
qed


lemma to_string_small:
  "to_string 0 = ''0''" "to_string 1 = ''1''" "to_string 2 = ''2''"
  by (simp_all add: to_string_def digits.simps digit_char_def)

lemma int_below_2: "{0..<2::int} = {0, 1}"
  by auto

lemma int_below_3: "{0..<3::int} = {0, 1, 2}"
  by auto

text \<open>
  Worker 1 of 2 named a, like worker 0: the collision of ids 1 and 0 on a is raised.
  Worker 1 of 3 named b beside a and c: a table is returned.
\<close>

theorem collectNames_name_collision_witness:
  "run (collectNames 1 ''a'' 2) [''0'' \<mapsto> ''a'']
     = (Raised (NameCollision ''a'' 1 0), [''0'' \<mapsto> ''a'', ''1'' \<mapsto> ''a''],
        [SetEv ''1'' ''a'', GetEv ''0'' ''a''])
   \<and> \<not> (\<exists>j \<in> {0..<2}. [''0'' \<mapsto> ''a'', ''1'' \<mapsto> ''a''] (to_string j) = None)
   \<and> \<not> inj_on (\<lambda>j. [''0'' \<mapsto> ''a'', ''1'' \<mapsto> ''a''] (to_string j)) (insert 1 {0..<2})
   \<and> (\<exists>name a b. NameCollision ''a'' 1 0 = NameCollision name a b \<and> a \<noteq> b
         \<and> a \<in> insert 1 {0..<2} \<and> b \<in> insert 1 {0..<2}
         \<and> [''0'' \<mapsto> ''a'', ''1'' \<mapsto> ''a''] (to_string a) = Some name
         \<and> [''0'' \<mapsto> ''a'', ''1'' \<mapsto> ''a''] (to_string b) = Some name)
   \<and> run (collectNames 1 ''b'' 3) [''0'' \<mapsto> ''a'', ''2'' \<mapsto> ''c'']
     = (Returned [(''b'', 1), (''a'', 0), (''c'', 2)],
        [''0'' \<mapsto> ''a'', ''2'' \<mapsto> ''c'', ''1'' \<mapsto> ''b''],
        [SetEv ''1'' ''b'', GetEv ''0'' ''a'', GetEv ''2'' ''c''])
   \<and> \<not> (\<exists>j \<in> {0..<3}. [''0'' \<mapsto> ''a'', ''2'' \<mapsto> ''c'', ''1'' \<mapsto> ''b''] (to_string j) = None)
   \<and> inj_on (\<lambda>j. [''0'' \<mapsto> ''a'', ''2'' \<mapsto> ''c'', ''1'' \<mapsto> ''b''] (to_string j)) (insert 1 {0..<3})"
proof -
  have r: "run (collectNames 1 ''a'' 2) [''0'' \<mapsto> ''a'']
     = (Raised (NameCollision ''a'' 1 0), [''0'' \<mapsto> ''a'', ''1'' \<mapsto> ''a''],
        [SetEv ''1'' ''a'', GetEv ''0'' ''a''])"
    by (simp add: collectNames_def collectNames_loop.simps emplace_def find_name_def
        log_event_def store_set_def to_string_small)
  have p: "\<forall>j \<in> {0..<2}. [''0'' \<mapsto> ''a'', ''1'' \<mapsto> ''a''] (to_string j) \<noteq> None"
    by (simp add: int_below_2 to_string_small)
  have n: "\<not> inj_on (\<lambda>j. [''0'' \<mapsto> ''a'', ''1'' \<mapsto> ''a''] (to_string j)) (insert 1 {0..<2})"
    by (simp add: int_below_2 to_string_small)
  have r2: "run (collectNames 1 ''b'' 3) [''0'' \<mapsto> ''a'', ''2'' \<mapsto> ''c'']
     = (Returned [(''b'', 1), (''a'', 0), (''c'', 2)],
        [''0'' \<mapsto> ''a'', ''2'' \<mapsto> ''c'', ''1'' \<mapsto> ''b''],
        [SetEv ''1'' ''b'', GetEv ''0'' ''a'', GetEv ''2'' ''c''])"
    by (simp add: collectNames_def collectNames_loop.simps emplace_def find_name_def
        log_event_def store_set_def to_string_small)
  have p2: "\<forall>j \<in> {0..<3}. [''0'' \<mapsto> ''a'', ''2'' \<mapsto> ''c'', ''1'' \<mapsto> ''b''] (to_string j) \<noteq> None"
    by (simp add: int_below_3 to_string_small)
  have i2: "inj_on (\<lambda>j. [''0'' \<mapsto> ''a'', ''2'' \<mapsto> ''c'', ''1'' \<mapsto> ''b''] (to_string j)) (insert 1 {0..<3})"
    unfolding inj_on_def int_below_3 by (auto simp: to_string_small)
  have z2: "(0::int) \<le> 2" and z3: "(0::int) \<le> 3"
    by simp_all
  from collectNames_name_collision [OF r z2] collectNames_name_collision [OF r2 z3]
    r p n r2 p2 i2
  show ?thesis by blast
qed

subsection \<open>The dynamic registry: termination, errors and the manifest\<close>

lemma find_at_bounds:
  "find_at xs delim p = Some e \<Longrightarrow> p \<le> e \<and> (e - p) + length delim \<le> length xs"
proof (induction xs arbitrary: p)
  case Nil
  then show ?case by (auto split: if_splits)
next
  case (Cons c cs)
  show ?case
  proof (cases "take (length delim) (c # cs) = delim")
    case True
    then have "length (take (length delim) (c # cs)) = length delim"
      by simp
    then have "length delim \<le> length (c # cs)"
      by simp
    with True Cons.prems show ?thesis by simp
  next
    case False
    with Cons.prems have "find_at cs delim (Suc p) = Some e" by simp
    from Cons.IH [OF this] show ?thesis by auto
  qed
qed

lemma find_str_bounds:
  "find_str s delim start = Some e \<Longrightarrow> start \<le> e \<and> e + length delim \<le> length s"
  by (auto simp: find_str_def split: if_splits dest!: find_at_bounds)

lemma splitString_loop_terminates:
  "delim \<noteq> [] \<Longrightarrow> \<exists>ts. splitString_loop s delim start toks = Some ts"
proof (induction "Suc (length s) - start" arbitrary: start toks rule: less_induct)
  case less
  show ?case
  proof (cases "find_str s delim start")
    case None
    then show ?thesis
      by (subst splitString_loop.simps) simp
  next
    case (Some e)
    from find_str_bounds [OF Some] less.prems
    have "Suc (length s) - (e + length delim) < Suc (length s) - start"
      by (cases delim) auto
    from less.hyps [OF this less.prems] Some show ?thesis
      by (subst splitString_loop.simps) simp
  qed
qed

lemma splitString_terminates: "delim \<noteq> [] \<Longrightarrow> \<exists>ts. splitString s delim = Some ts"
  unfolding splitString_def by (rule splitString_loop_terminates)

lemma stoi_errors: "stoi s = Inl e \<Longrightarrow> e = StoiInvalidArgument \<or> e = StoiOutOfRange"
  by (auto simp: stoi_def Let_def split: if_splits)

lemma parseWorkerInfo_returns: "\<exists>r. parseWorkerInfo workerInfo = Some r"
  using splitString_terminates [of "''-''" workerInfo] by (auto simp: parseWorkerInfo_def)

lemma parseWorkerInfo_errors:
  "parseWorkerInfo workerInfo = Some (Inl e) \<Longrightarrow>
   e = VectorOutOfRange \<or> e = StoiInvalidArgument \<or> e = StoiOutOfRange"
  by (auto simp: parseWorkerInfo_def at_def split: option.splits sum.splits if_splits
      dest: stoi_errors)

lemma collectCurrentNames_loop_returns:
  "\<exists>r. collectCurrentNames_loop nameToId workerInfos = Some r"
proof (induction workerInfos arbitrary: nameToId)
  case Nil
  show ?case by simp
next
  case (Cons workerInfo rest)
  obtain r where r: "parseWorkerInfo workerInfo = Some r"
    using parseWorkerInfo_returns by blast
  show ?case
  proof (cases r)
    case (Inl e)
    with r show ?thesis by simp
  next
    case (Inr p)
    obtain workerName workerId where "p = (workerName, workerId)" by (cases p)
    with r Inr Cons.IH [of "emplace nameToId workerName workerId"] show ?thesis
      by (cases "find_name nameToId workerName") auto
  qed
qed

lemma collectCurrentNames_loop_errors:
  "collectCurrentNames_loop nameToId workerInfos = Some (Inl e) \<Longrightarrow>
   e = VectorOutOfRange \<or> e = StoiInvalidArgument \<or> e = StoiOutOfRange
   \<or> (\<exists>name a b. e = NameCollision name a b)"
proof (induction workerInfos arbitrary: nameToId)
  case Nil
  then show ?case by simp
next
  case (Cons workerInfo rest)
  then show ?case
    by (auto split: option.splits sum.splits dest: parseWorkerInfo_errors)
qed


lemma collectCurrentNames_loop_of_parsed:
  "parse_records workerInfos = Some (Inr ps) \<Longrightarrow> distinct (map fst (nameToId @ ps)) \<Longrightarrow>
   collectCurrentNames_loop nameToId workerInfos = Some (Inr (nameToId @ ps))"
proof (induction workerInfos arbitrary: nameToId ps)
  case Nil
  then show ?case by simp
next
  case (Cons workerInfo rest)
  from Cons.prems(1) obtain p ps' where
    p: "parseWorkerInfo workerInfo = Some (Inr p)"
    and r: "parse_records rest = Some (Inr ps')" and ps: "ps = p # ps'"
    by (auto split: option.splits sum.splits)
  obtain workerName workerId where pp: "p = (workerName, workerId)" by (cases p)
  have f: "find_name nameToId workerName = None"
    using Cons.prems(2) by (auto simp: ps pp find_name_None_iff)
  have e: "emplace nameToId workerName workerId = nameToId @ [(workerName, workerId)]"
    using f by (rule emplace_fresh)
  have "distinct (map fst ((nameToId @ [(workerName, workerId)]) @ ps'))"
    using Cons.prems(2) by (simp add: ps pp)
  from Cons.IH [OF r this] p f show ?case
    by (simp add: pp e ps)
qed

lemma run_collectCurrentNames_manifest_fresh:
  "st allWorkerInfosKey = None \<Longrightarrow>
   run (collectCurrentNames_manifest selfId selfName) st
   = (Returned [(selfName, selfId)],
      st(allWorkerInfosKey \<mapsto> formatWorkerInfos None selfName selfId),
      [CheckEv allWorkerInfosKey False,
       SetEv allWorkerInfosKey (formatWorkerInfos None selfName selfId)])"
  by (simp add: collectCurrentNames_manifest_def store_check_def store_set_def log_event_def)

lemma run_collectCurrentNames_manifest_present:
  assumes "st allWorkerInfosKey = Some allWorkerInfos"
  shows "\<exists>workerInfos r. splitString allWorkerInfos '','' = Some workerInfos
     \<and> collectCurrentNames_loop [(selfName, selfId)] workerInfos = Some r
     \<and> run (collectCurrentNames_manifest selfId selfName) st
       = (case r of
            Inl e \<Rightarrow>
              (Raised e, st,
               [CheckEv allWorkerInfosKey True, GetEv allWorkerInfosKey allWorkerInfos])
          | Inr nameToId \<Rightarrow>
              (Returned nameToId,
               st(allWorkerInfosKey \<mapsto> formatWorkerInfos (Some allWorkerInfos) selfName selfId),
               [CheckEv allWorkerInfosKey True, GetEv allWorkerInfosKey allWorkerInfos,
                SetEv allWorkerInfosKey (formatWorkerInfos (Some allWorkerInfos) selfName selfId)]))"
proof -
  obtain workerInfos where s: "splitString allWorkerInfos '','' = Some workerInfos"
    using splitString_terminates [of "'',''" allWorkerInfos] by auto
  obtain r where r: "collectCurrentNames_loop [(selfName, selfId)] workerInfos = Some r"
    using collectCurrentNames_loop_returns by blast
  show ?thesis
    using assms s r
    by (cases r)
      (simp_all add: collectCurrentNames_manifest_def store_check_def store_set_def log_event_def)
qed

lemma to_string_not_manifest_key: "to_string i \<noteq> allWorkerInfosKey"
proof
  assume eq: "to_string i = allWorkerInfosKey"
  show False
  proof (cases "i < 0")
    case True
    with eq show False by (simp add: to_string_def allWorkerInfosKey_def)
  next
    case False
    with eq have "hd (digits (nat i)) = CHR ''A''"
      by (simp add: to_string_def allWorkerInfosKey_def)
    with hd_digits_isdigit [of "nat i"] show False
      by (simp add: isdigit_def)
  qed
qed

lemma run_collectCurrentNames_manifest_frame:
  assumes "run (collectCurrentNames_manifest selfId selfName) st = (out, st', tr)"
  shows "st' k = st k \<or> k = allWorkerInfosKey"
    and "\<not> is_IdCollision out" and "out \<noteq> Blocked" and "out \<noteq> Diverged"
    and "\<forall>ev \<in> set tr. \<not> is_compareSet ev"
proof -
  have "(st' k = st k \<or> k = allWorkerInfosKey) \<and> \<not> is_IdCollision out \<and> out \<noteq> Blocked
        \<and> out \<noteq> Diverged \<and> (\<forall>ev \<in> set tr. \<not> is_compareSet ev)"
  proof (cases "st allWorkerInfosKey")
    case None
    from run_collectCurrentNames_manifest_fresh [where st = st and selfId = selfId
        and selfName = selfName] None assms
    show ?thesis by auto
  next
    case (Some allWorkerInfos)
    from run_collectCurrentNames_manifest_present [where st = st and selfId = selfId
        and selfName = selfName and allWorkerInfos = allWorkerInfos] Some
    obtain workerInfos r where
      l: "collectCurrentNames_loop [(selfName, selfId)] workerInfos = Some r"
      and r: "run (collectCurrentNames_manifest selfId selfName) st
       = (case r of
            Inl e \<Rightarrow>
              (Raised e, st,
               [CheckEv allWorkerInfosKey True, GetEv allWorkerInfosKey allWorkerInfos])
          | Inr nameToId \<Rightarrow>
              (Returned nameToId,
               st(allWorkerInfosKey \<mapsto> formatWorkerInfos (Some allWorkerInfos) selfName selfId),
               [CheckEv allWorkerInfosKey True, GetEv allWorkerInfosKey allWorkerInfos,
                SetEv allWorkerInfosKey (formatWorkerInfos (Some allWorkerInfos) selfName selfId)]))"
      by blast
    show ?thesis
    proof (cases r)
      case (Inl e)
      with l have "e = VectorOutOfRange \<or> e = StoiInvalidArgument \<or> e = StoiOutOfRange
                   \<or> (\<exists>name a b. e = NameCollision name a b)"
        by (intro collectCurrentNames_loop_errors) simp
      with Inl r assms show ?thesis by auto
    next
      case (Inr t)
      with r assms show ?thesis by auto
    qed
  qed
  then show "st' k = st k \<or> k = allWorkerInfosKey"
    and "\<not> is_IdCollision out" and "out \<noteq> Blocked" and "out \<noteq> Diverged"
    and "\<forall>ev \<in> set tr. \<not> is_compareSet ev"
    by simp_all
qed

subsection \<open>The id claim of the dynamic registry\<close>

lemma store_compareSet_cases:
  "store_compareSet st k [] desired =
     (if st k = None \<or> st k = Some [] then (st(k \<mapsto> desired), desired)
      else (st, the (st k)))"
  by (cases "st k") (simp_all add: store_compareSet_def Let_def)

lemma store_compareSet_stored:
  "store_compareSet st k [] desired = (st1, result) \<Longrightarrow> st1 k = Some result"
  by (cases "st k") (auto simp: store_compareSet_cases split: if_splits)

lemma store_compareSet_failed:
  "store_compareSet st k [] desired = (st1, result) \<Longrightarrow> result \<noteq> desired \<Longrightarrow>
   st1 = st \<and> st k = Some result"
  by (cases "st k") (auto simp: store_compareSet_cases split: if_splits)

lemma store_compareSet_absent:
  "store_compareSet st k [] desired = (st1, result) \<Longrightarrow> st k = None \<or> st k = Some desired \<Longrightarrow>
   result = desired"
  by (cases "st k") (auto simp: store_compareSet_cases split: if_splits)


lemma run_collectCurrentNames_collision:
  assumes "store_compareSet st (to_string selfId) [] selfName = (st1, result)"
    and "result \<noteq> selfName"
  shows "run (collectCurrentNames selfId selfName) st
    = (Raised (IdCollision selfId result selfName), st1,
       [CompareSetEv (to_string selfId) [] selfName result])"
  using assms by (simp add: collectCurrentNames_def log_event_def)

lemma run_collectCurrentNames_claimed:
  assumes "store_compareSet st (to_string selfId) [] selfName = (st1, selfName)"
  shows "run (collectCurrentNames selfId selfName) st
    = log_event (CompareSetEv (to_string selfId) [] selfName selfName)
        (log_event (SetEv (to_string selfId) selfName)
           (run (collectCurrentNames_manifest selfId selfName)
              (st1(to_string selfId \<mapsto> selfName))))"
  using assms by (simp add: collectCurrentNames_def store_set_def)

text \<open>
  Claim C10. In \<^verbatim>\<open>collectCurrentNames\<close> the compare-and-set answers with the value
  that the id key holds after it. The call raises IdCollision exactly when that value
  differs from \<open>selfName\<close>, and then it has done nothing else and changed nothing. If
  the key was absent or held \<open>selfName\<close> already, no IdCollision is raised, the next
  operation is the \<^verbatim>\<open>set\<close> of \<open>selfName\<close> under the id key, and the key still holds
  \<open>selfName\<close> when the call ends, however it ends.
\<close>

theorem collectCurrentNames_id_claim:
  assumes run: "run (collectCurrentNames selfId selfName) st = (out, st', tr)"
    and cas: "store_compareSet st (to_string selfId) [] selfName = (st1, result)"
  shows "st1 (to_string selfId) = Some result
    \<and> (is_IdCollision out \<longleftrightarrow> st1 (to_string selfId) \<noteq> Some selfName)
    \<and> (st1 (to_string selfId) \<noteq> Some selfName \<longrightarrow>
         out = Raised (IdCollision selfId result selfName) \<and> st' = st
         \<and> tr = [CompareSetEv (to_string selfId) [] selfName result])
    \<and> (st (to_string selfId) = None \<or> st (to_string selfId) = Some selfName \<longrightarrow>
         \<not> is_IdCollision out \<and> st' (to_string selfId) = Some selfName
         \<and> (\<exists>rest. tr = CompareSetEv (to_string selfId) [] selfName selfName
                       # SetEv (to_string selfId) selfName # rest))"
proof -
  note stored = store_compareSet_stored [OF cas]
  show ?thesis
  proof (cases "result = selfName")
    case False
    note failed = store_compareSet_failed [OF cas False]
    from run_collectCurrentNames_collision [OF cas False] run
    have "out = Raised (IdCollision selfId result selfName)" and "st' = st1"
      and "tr = [CompareSetEv (to_string selfId) [] selfName result]"
      by simp_all
    moreover have "\<not> (st (to_string selfId) = None \<or> st (to_string selfId) = Some selfName)"
      using failed False by simp
    ultimately show ?thesis
      using stored failed False by simp
  next
    case True
    obtain out2 st2 tr2 where r2:
      "run (collectCurrentNames_manifest selfId selfName) (st1(to_string selfId \<mapsto> selfName))
       = (out2, st2, tr2)"
      by (metis prod_cases3)
    from run_collectCurrentNames_claimed [of st selfId selfName st1] cas True run r2
    have eq: "out = out2" "st' = st2"
      "tr = CompareSetEv (to_string selfId) [] selfName selfName
            # SetEv (to_string selfId) selfName # tr2"
      by (simp_all add: log_event_def)
    from run_collectCurrentNames_manifest_frame(1) [OF r2, of "to_string selfId"]
    have "st2 (to_string selfId) = Some selfName"
      by (simp add: to_string_not_manifest_key)
    with run_collectCurrentNames_manifest_frame(2) [OF r2] eq True stored show ?thesis
      by simp
  qed
qed


text \<open>
  Worker b claims id 1: once with the key held by a (IdCollision), once with the key
  absent (the claim goes through and the name is published again).
\<close>

theorem collectCurrentNames_id_claim_witness:
  "run (collectCurrentNames 1 ''b'') [''1'' \<mapsto> ''a'']
     = (Raised (IdCollision 1 ''a'' ''b''), [''1'' \<mapsto> ''a''], [CompareSetEv ''1'' [] ''b'' ''a''])
   \<and> store_compareSet [''1'' \<mapsto> ''a''] (to_string 1) [] ''b'' = ([''1'' \<mapsto> ''a''], ''a'')
   \<and> [''1'' \<mapsto> ''a''] (to_string 1) \<noteq> Some ''b''
   \<and> is_IdCollision (Raised (IdCollision 1 ''a'' ''b'') :: nametable outcome)
   \<and> run (collectCurrentNames 1 ''b'') [''7'' \<mapsto> ''z'']
     = (Returned [(''b'', 1)], [''7'' \<mapsto> ''z'', ''1'' \<mapsto> ''b'', ''AllWorkerInfos'' \<mapsto> ''b-1''],
        [CompareSetEv ''1'' [] ''b'' ''b'', SetEv ''1'' ''b'', CheckEv ''AllWorkerInfos'' False,
         SetEv ''AllWorkerInfos'' ''b-1''])
   \<and> store_compareSet [''7'' \<mapsto> ''z''] (to_string 1) [] ''b''
       = ([''7'' \<mapsto> ''z'', ''1'' \<mapsto> ''b''], ''b'')
   \<and> [''7'' \<mapsto> ''z''] (to_string 1) = None
   \<and> \<not> is_IdCollision (Returned [(''b'', 1)])
   \<and> [''7'' \<mapsto> ''z'', ''1'' \<mapsto> ''b'', ''AllWorkerInfos'' \<mapsto> ''b-1''] (to_string 1) = Some ''b''"
proof -
  have c: "store_compareSet [''1'' \<mapsto> ''a''] (to_string 1) [] ''b'' = ([''1'' \<mapsto> ''a''], ''a'')"
    by (simp add: store_compareSet_def Let_def to_string_small)
  have r: "run (collectCurrentNames 1 ''b'') [''1'' \<mapsto> ''a'']
     = (Raised (IdCollision 1 ''a'' ''b''), [''1'' \<mapsto> ''a''], [CompareSetEv ''1'' [] ''b'' ''a''])"
    using run_collectCurrentNames_collision [OF c] by (simp add: to_string_small)
  have c2: "store_compareSet [''7'' \<mapsto> ''z''] (to_string 1) [] ''b''
       = ([''7'' \<mapsto> ''z'', ''1'' \<mapsto> ''b''], ''b'')"
    by (simp add: store_compareSet_def Let_def to_string_small)
  have r2: "run (collectCurrentNames 1 ''b'') [''7'' \<mapsto> ''z'']
     = (Returned [(''b'', 1)], [''7'' \<mapsto> ''z'', ''1'' \<mapsto> ''b'', ''AllWorkerInfos'' \<mapsto> ''b-1''],
        [CompareSetEv ''1'' [] ''b'' ''b'', SetEv ''1'' ''b'', CheckEv ''AllWorkerInfos'' False,
         SetEv ''AllWorkerInfos'' ''b-1''])"
    by (simp add: run_collectCurrentNames_claimed [OF c2] run_collectCurrentNames_manifest_fresh
        log_event_def allWorkerInfosKey_def formatWorkerInfos_def to_string_small)
  have m: "[''7'' \<mapsto> ''z''] (to_string 1) = None"
    by (simp add: to_string_small)
  have a: "[''1'' \<mapsto> ''a''] (to_string 1) \<noteq> Some ''b''"
    by (simp add: to_string_small)
  from collectCurrentNames_id_claim [OF r c] a
  have i: "is_IdCollision (Raised (IdCollision 1 ''a'' ''b'') :: nametable outcome)"
    by (simp add: to_string_small)
  from collectCurrentNames_id_claim [OF r2 c2] m
  have n: "\<not> is_IdCollision (Returned [(''b'', 1)])
     \<and> [''7'' \<mapsto> ''z'', ''1'' \<mapsto> ''b'', ''AllWorkerInfos'' \<mapsto> ''b-1''] (to_string 1) = Some ''b''"
    by (simp add: to_string_small)
  from c r c2 r2 m a i n show ?thesis
    by (intro conjI) simp_all
qed

subsection \<open>IdCollision in the dynamic registry\<close>

lemma run_collectCurrentNames_single_compareSet:
  "\<exists>result rest. snd (snd (run (collectCurrentNames selfId selfName) st))
       = CompareSetEv (to_string selfId) [] selfName result # rest
     \<and> (\<forall>ev \<in> set rest. \<not> is_compareSet ev)"
proof -
  obtain st1 result where cas: "store_compareSet st (to_string selfId) [] selfName = (st1, result)"
    by (cases "store_compareSet st (to_string selfId) [] selfName")
  show ?thesis
  proof (cases "result = selfName")
    case False
    from run_collectCurrentNames_collision [OF cas False] show ?thesis by simp
  next
    case True
    obtain out2 st2 tr2 where r2:
      "run (collectCurrentNames_manifest selfId selfName) (st1(to_string selfId \<mapsto> selfName))
       = (out2, st2, tr2)"
      by (metis prod_cases3)
    from run_collectCurrentNames_claimed [of st selfId selfName st1] cas True r2
    have "snd (snd (run (collectCurrentNames selfId selfName) st))
          = CompareSetEv (to_string selfId) [] selfName selfName
            # SetEv (to_string selfId) selfName # tr2"
      by (simp add: log_event_def)
    with run_collectCurrentNames_manifest_frame(5) [OF r2] show ?thesis
      by simp
  qed
qed

text \<open>
  An occupant whose name is not empty is detected: when the id key is bound to a name
  that is not empty and differs from \<open>selfName\<close>, the call fails with the IdCollision
  that names the occupant, after one compare-and-set and with the store unchanged. In
  every call the first operation is the compare-and-set of the id key with the empty
  byte string as the expected value, and the call performs no other compare-and-set.
\<close>

lemma collectCurrentNames_id_collision:
  "(st (to_string selfId) = Some occupant \<and> occupant \<noteq> selfName \<and> occupant \<noteq> [] \<longrightarrow>
      run (collectCurrentNames selfId selfName) st
      = (Raised (IdCollision selfId occupant selfName), st,
         [CompareSetEv (to_string selfId) [] selfName occupant]))
   \<and> (\<exists>result rest. snd (snd (run (collectCurrentNames selfId selfName) st))
          = CompareSetEv (to_string selfId) [] selfName result # rest
        \<and> (\<forall>ev \<in> set rest. \<not> is_compareSet ev))"
proof -
  have "run (collectCurrentNames selfId selfName) st
      = (Raised (IdCollision selfId occupant selfName), st,
         [CompareSetEv (to_string selfId) [] selfName occupant])"
    if "st (to_string selfId) = Some occupant" "occupant \<noteq> selfName" "occupant \<noteq> []"
  proof -
    from that have "store_compareSet st (to_string selfId) [] selfName = (st, occupant)"
      by (simp add: store_compareSet_cases)
    from run_collectCurrentNames_collision [OF this that(2)] show ?thesis .
  qed
  with run_collectCurrentNames_single_compareSet [of selfId selfName st] show ?thesis
    by blast
qed

text \<open>Worker b claims id 1, which a holds.\<close>

lemma collectCurrentNames_id_collision_example:
  "[''1'' \<mapsto> ''a''] (to_string 1) = Some ''a'' \<and> ''a'' \<noteq> ''b'' \<and> ''a'' \<noteq> []
   \<and> run (collectCurrentNames 1 ''b'') [''1'' \<mapsto> ''a'']
      = (Raised (IdCollision 1 ''a'' ''b''), [''1'' \<mapsto> ''a''],
         [CompareSetEv (to_string 1) [] ''b'' ''a''])"
proof -
  have h: "[''1'' \<mapsto> ''a''] (to_string 1) = Some ''a'' \<and> ''a'' \<noteq> ''b'' \<and> ''a'' \<noteq> []"
    by (simp add: to_string_small)
  with collectCurrentNames_id_collision [of "[''1'' \<mapsto> ''a'']" 1 "''a''" "''b''"]
  show ?thesis by blast
qed

text \<open>
  Claim C4: a worker that claims an id whose key is bound to a different name fails
  with an IdCollision naming the occupant. The code does not do so when the occupant's
  name is the empty string. Line 69 passes an empty vector as the expected value of
  the compare-and-set, and that is equal to the occupant's empty name: the exchange
  succeeds, the answer is \<open>selfName\<close>, the check of lines 70 to 78 passes and the
  occupant is overwritten, against the comment of line 67 (the id must not exist
  already) and the message of the check (the id is not unique). Here the key of id 0
  is bound to the empty name and worker b claims id 0: the call returns a table and
  leaves b under the key.
\<close>

theorem collectCurrentNames_empty_occupant_overwritten:
  "[''0'' \<mapsto> ''''] (to_string 0) = Some '''' \<and> '''' \<noteq> ''b''
   \<and> run (collectCurrentNames 0 ''b'') [''0'' \<mapsto> '''']
      = (Returned [(''b'', 0)], [''0'' \<mapsto> ''b'', ''AllWorkerInfos'' \<mapsto> ''b-0''],
         [CompareSetEv ''0'' [] ''b'' ''b'', SetEv ''0'' ''b'', CheckEv ''AllWorkerInfos'' False,
          SetEv ''AllWorkerInfos'' ''b-0''])"
proof -
  have c: "store_compareSet [''0'' \<mapsto> ''''] (to_string 0) [] ''b'' = ([''0'' \<mapsto> ''b''], ''b'')"
    by (simp add: store_compareSet_def Let_def to_string_small)
  show ?thesis
    by (simp add: run_collectCurrentNames_claimed [OF c] run_collectCurrentNames_manifest_fresh
        log_event_def allWorkerInfosKey_def formatWorkerInfos_def to_string_small)
qed

subsection \<open>The manifest read back by the dynamic registry\<close>

lemma registered_snoc:
  "registered (ps @ [(name, wid)]) = fst (snd (run (collectCurrentNames wid name) (registered ps)))"
  by (simp add: registered_def)

lemma run_collectCurrentNames_manifest_serialised:
  assumes plain: "\<forall>p \<in> set ps. plain_pair p"
    and names: "distinct (map fst ((selfName, selfId) # ps))"
    and manifest: "st allWorkerInfosKey = serialise ps"
  shows "\<exists>tr. run (collectCurrentNames_manifest selfId selfName) st
     = (Returned ((selfName, selfId) # ps),
        st(allWorkerInfosKey \<mapsto> formatWorkerInfos (serialise ps) selfName selfId), tr)"
proof (cases "ps = []")
  case True
  with manifest have "st allWorkerInfosKey = None"
    by (simp add: serialise_def)
  then have "run (collectCurrentNames_manifest selfId selfName) st
     = (Returned [(selfName, selfId)],
        st(allWorkerInfosKey \<mapsto> formatWorkerInfos None selfName selfId),
        [CheckEv allWorkerInfosKey False,
         SetEv allWorkerInfosKey (formatWorkerInfos None selfName selfId)])"
    by (rule run_collectCurrentNames_manifest_fresh)
  with True show ?thesis by (simp add: serialise_def)
next
  case False
  let ?m = "join CHR '','' (map record_text ps)"
  from False have ser: "serialise ps = Some ?m"
    by (rule serialise_join)
  have split: "splitString ?m '','' = Some (map record_text ps)"
    using False plain by (intro splitString_join) (simp_all add: record_text_no_comma)
  have "collectCurrentNames_loop [(selfName, selfId)] (map record_text ps)
        = Some (Inr ([(selfName, selfId)] @ ps))"
    using names by (intro collectCurrentNames_loop_of_parsed parse_records_record_text plain) simp
  with split manifest ser show ?thesis
    by (simp add: collectCurrentNames_manifest_def store_check_def store_set_def log_event_def)
qed

lemma run_collectCurrentNames_serialised:
  assumes plain: "\<forall>p \<in> set ps. plain_pair p"
    and names: "distinct (map fst ((selfName, selfId) # ps))"
    and manifest: "st allWorkerInfosKey = serialise ps"
    and absent: "st (to_string selfId) = None"
  shows "\<exists>tr. run (collectCurrentNames selfId selfName) st
     = (Returned ((selfName, selfId) # ps),
        st(to_string selfId \<mapsto> selfName,
           allWorkerInfosKey \<mapsto> formatWorkerInfos (serialise ps) selfName selfId), tr)"
proof -
  let ?st1 = "st(to_string selfId \<mapsto> selfName)"
  from absent have cas: "store_compareSet st (to_string selfId) [] selfName = (?st1, selfName)"
    by (simp add: store_compareSet_cases)
  have "?st1 allWorkerInfosKey = serialise ps"
    using manifest to_string_not_manifest_key [of selfId] by auto
  with plain names have "\<exists>tr. run (collectCurrentNames_manifest selfId selfName) ?st1
     = (Returned ((selfName, selfId) # ps),
        ?st1(allWorkerInfosKey \<mapsto> formatWorkerInfos (serialise ps) selfName selfId), tr)"
    by (rule run_collectCurrentNames_manifest_serialised)
  then obtain tr where
    "run (collectCurrentNames_manifest selfId selfName) ?st1
     = (Returned ((selfName, selfId) # ps),
        ?st1(allWorkerInfosKey \<mapsto> formatWorkerInfos (serialise ps) selfName selfId), tr)"
    by blast
  then show ?thesis
    by (simp add: run_collectCurrentNames_claimed [OF cas] log_event_def)
qed

lemma registered_store:
  assumes "\<forall>p \<in> set ps. plain_pair p" and "distinct (map fst ps)" and "distinct (map snd ps)"
  shows "registered ps allWorkerInfosKey = serialise ps
     \<and> (\<forall>wid. wid \<notin> snd ` set ps \<longrightarrow> registered ps (to_string wid) = None)"
  using assms
proof (induction ps rule: rev_induct)
  case Nil
  then show ?case by (simp add: registered_def serialise_def)
next
  case (snoc p ps)
  obtain name wid where p: "p = (name, wid)" by (cases p)
  from snoc.prems have plain: "\<forall>q \<in> set ps. plain_pair q"
    and names: "distinct (map fst ps)" and ids: "distinct (map snd ps)"
    and fresh_name: "name \<notin> fst ` set ps" and fresh_id: "wid \<notin> snd ` set ps"
    by (auto simp: p)
  from snoc.IH [OF plain names ids] have m: "registered ps allWorkerInfosKey = serialise ps"
    and none: "\<And>j. j \<notin> snd ` set ps \<Longrightarrow> registered ps (to_string j) = None"
    by auto
  have "distinct (map fst ((name, wid) # ps))"
    using names fresh_name by simp
  with plain have "\<exists>tr. run (collectCurrentNames wid name) (registered ps)
     = (Returned ((name, wid) # ps),
        (registered ps)(to_string wid \<mapsto> name,
           allWorkerInfosKey \<mapsto> formatWorkerInfos (serialise ps) name wid), tr)"
    using m none [OF fresh_id] by (rule run_collectCurrentNames_serialised)
  then have st: "registered (ps @ [(name, wid)])
    = (registered ps)(to_string wid \<mapsto> name,
         allWorkerInfosKey \<mapsto> formatWorkerInfos (serialise ps) name wid)"
    by (auto simp: registered_snoc)
  have "registered (ps @ [(name, wid)]) allWorkerInfosKey = serialise (ps @ [(name, wid)])"
    by (simp add: st serialise_snoc)
  moreover have "registered (ps @ [(name, wid)]) (to_string j) = None"
    if "j \<notin> snd ` set (ps @ [(name, wid)])" for j
  proof -
    from that have "j \<noteq> wid" and "j \<notin> snd ` set ps"
      by auto
    with none [of j] to_string_not_manifest_key [of j] show ?thesis
      by (simp add: st to_string_eq_iff)
  qed
  ultimately show ?case unfolding p by blast
qed

text \<open>
  Claim C9. Take pairs whose names hold neither \<open>,\<close> nor \<open>-\<close> (and whose ids are
  worker ids: non-negative, within \<^verbatim>\<open>int\<close>). Their manifest, split at the commas and
  every record at its dash as lines 97 to 100 do, gives back exactly these pairs, in
  order. That manifest is what the dynamic registry writes: registering the pairs one
  after the other, with names and ids pairwise distinct so that every call returns,
  leaves it under the manifest key. And the registry reads it back: a call of
  \<^verbatim>\<open>collectCurrentNames\<close> by a worker with a new name, on a store that holds the
  manifest and not the key of the caller's id, returns the table of the caller's own
  entry followed by exactly the pairs, in order, and writes the manifest with its own
  record appended; so does the call that follows the registration of the pairs.
\<close>

theorem manifest_read_back:
  assumes plain: "\<forall>p \<in> set ps. plain_pair p"
  shows "parseManifest (serialise ps) = Some (Inr ps)
    \<and> (distinct (map fst ps) \<and> distinct (map snd ps) \<longrightarrow>
         registered ps allWorkerInfosKey = serialise ps)
    \<and> (distinct (map fst ((selfName, selfId) # ps)) \<and> st allWorkerInfosKey = serialise ps
         \<and> st (to_string selfId) = None \<longrightarrow>
         (\<exists>tr. run (collectCurrentNames selfId selfName) st
            = (Returned ((selfName, selfId) # ps),
               st(to_string selfId \<mapsto> selfName,
                  allWorkerInfosKey \<mapsto> formatWorkerInfos (serialise ps) selfName selfId), tr)))
    \<and> (distinct (map fst ((selfName, selfId) # ps)) \<and> distinct (map snd ((selfName, selfId) # ps)) \<longrightarrow>
         fst (run (collectCurrentNames selfId selfName) (registered ps))
           = Returned ((selfName, selfId) # ps))"
proof -
  have a: "parseManifest (serialise ps) = Some (Inr ps)"
    using plain by (rule parseManifest_serialise)
  have b: "registered ps allWorkerInfosKey = serialise ps"
    if "distinct (map fst ps)" "distinct (map snd ps)"
    using registered_store [OF plain that] by simp
  have c: "\<exists>tr. run (collectCurrentNames selfId selfName) st
            = (Returned ((selfName, selfId) # ps),
               st(to_string selfId \<mapsto> selfName,
                  allWorkerInfosKey \<mapsto> formatWorkerInfos (serialise ps) selfName selfId), tr)"
    if "distinct (map fst ((selfName, selfId) # ps))" "st allWorkerInfosKey = serialise ps"
      "st (to_string selfId) = None"
    using plain that by (rule run_collectCurrentNames_serialised)
  have d: "fst (run (collectCurrentNames selfId selfName) (registered ps))
           = Returned ((selfName, selfId) # ps)"
    if n: "distinct (map fst ((selfName, selfId) # ps))"
      and i: "distinct (map snd ((selfName, selfId) # ps))"
  proof -
    from n i have "distinct (map fst ps)" "distinct (map snd ps)" "selfId \<notin> snd ` set ps"
      by auto
    with registered_store [OF plain] have "registered ps allWorkerInfosKey = serialise ps"
      and "registered ps (to_string selfId) = None"
      by auto
    with plain n have "\<exists>tr. run (collectCurrentNames selfId selfName) (registered ps)
       = (Returned ((selfName, selfId) # ps),
          (registered ps)(to_string selfId \<mapsto> selfName,
             allWorkerInfosKey \<mapsto> formatWorkerInfos (serialise ps) selfName selfId), tr)"
      by (rule run_collectCurrentNames_serialised)
    then show ?thesis
      by auto
  qed
  from a b c d show ?thesis by blast
qed

text \<open>Pairs a and b with ids 1 and 2, read back by worker c with id 3.\<close>

theorem manifest_read_back_witness:
  "plain_pair (''a'', 1) \<and> plain_pair (''b'', 2)
   \<and> distinct (map fst [(''c'', 3::int), (''a'', 1), (''b'', 2)])
   \<and> distinct (map snd [(''c'', 3::int), (''a'', 1), (''b'', 2)])
   \<and> serialise [(''a'', 1), (''b'', 2)] = Some ''a-1,b-2''
   \<and> parseManifest (Some ''a-1,b-2'') = Some (Inr [(''a'', 1), (''b'', 2)])
   \<and> registered [(''a'', 1), (''b'', 2)] allWorkerInfosKey = Some ''a-1,b-2''
   \<and> [''AllWorkerInfos'' \<mapsto> ''a-1,b-2''] (to_string 3) = None
   \<and> (\<exists>tr. run (collectCurrentNames 3 ''c'') [''AllWorkerInfos'' \<mapsto> ''a-1,b-2'']
         = (Returned [(''c'', 3), (''a'', 1), (''b'', 2)],
            [''AllWorkerInfos'' \<mapsto> ''a-1,b-2'', ''3'' \<mapsto> ''c'',
             ''AllWorkerInfos'' \<mapsto> ''a-1,b-2,c-3''], tr))
   \<and> fst (run (collectCurrentNames 3 ''c'') (registered [(''a'', 1), (''b'', 2)]))
       = Returned [(''c'', 3), (''a'', 1), (''b'', 2)]"
proof -
  have h: "\<forall>p \<in> set [(''a'', 1), (''b'', 2)]. plain_pair p"
    by (simp add: plain_pair_def INT_MAX_def)
  have n: "distinct (map fst [(''c'', 3::int), (''a'', 1), (''b'', 2)])"
    and i: "distinct (map snd [(''c'', 3::int), (''a'', 1), (''b'', 2)])"
    by simp_all
  have s: "serialise [(''a'', 1), (''b'', 2)] = Some ''a-1,b-2''"
    by (simp add: serialise_def formatWorkerInfos_def to_string_def digits.simps digit_char_def)
  have t3: "to_string 3 = ''3''"
    by (simp add: to_string_def digits.simps digit_char_def)
  have m: "[''AllWorkerInfos'' \<mapsto> ''a-1,b-2''] allWorkerInfosKey = serialise [(''a'', 1), (''b'', 2)]"
    and a: "[''AllWorkerInfos'' \<mapsto> ''a-1,b-2''] (to_string 3) = None"
    by (simp_all add: s allWorkerInfosKey_def t3)
  note t = manifest_read_back [OF h, of "''c''" 3 "[''AllWorkerInfos'' \<mapsto> ''a-1,b-2'']"]
  from t h n i s m a show ?thesis
    by (simp add: formatWorkerInfos_def t3 allWorkerInfosKey_def)
qed

subsection \<open>The tables that the registries return\<close>











subsection \<open>A group of workers in the fixed-size registry\<close>

lemma collectNames_loop_done:
  "\<not> workerId < worldSize \<Longrightarrow> collectNames_loop selfId worldSize workerId nameToId = Return nameToId"
  by (subst collectNames_loop.simps) simp

lemma collectNames_loop_skip:
  "selfId < worldSize \<Longrightarrow>
   collectNames_loop selfId worldSize selfId nameToId
   = collectNames_loop selfId worldSize (selfId + 1) nameToId"
  by (subst collectNames_loop.simps) simp

lemma collectNames_loop_get:
  "workerId < worldSize \<Longrightarrow> workerId \<noteq> selfId \<Longrightarrow>
   collectNames_loop selfId worldSize workerId nameToId
   = StoreGet (to_string workerId) (\<lambda>workerName.
       case find_name nameToId workerName of
         Some other \<Rightarrow> Throw (NameCollision workerName other workerId)
       | None \<Rightarrow>
           collectNames_loop selfId worldSize (workerId + 1)
             (emplace nameToId workerName workerId))"
  by (subst collectNames_loop.simps) simp

text \<open>The loop counter that the next \<^verbatim>\<open>get\<close> is for: the caller's own id is skipped.\<close>

lemma collectNames_loop_cases:
  obtains (ret) "collectNames_loop selfId worldSize workerId nameToId = Return nameToId"
      "{workerId..<worldSize} - {selfId} = {}"
  | (get) k where "k < worldSize" "k \<noteq> selfId" "workerId \<le> k"
      "{workerId..<worldSize} - {selfId} = {k..<worldSize} - {selfId}"
      "insert selfId {0..<workerId} = insert selfId {0..<k}"
      "collectNames_loop selfId worldSize workerId nameToId
       = collectNames_loop selfId worldSize k nameToId"
proof (cases "workerId < worldSize")
  case False
  then show ?thesis
    by (intro ret collectNames_loop_done) auto
next
  case lt: True
  show ?thesis
  proof (cases "workerId = selfId")
    case False
    with lt show ?thesis by (intro get [of workerId]) auto
  next
    case self: True
    show ?thesis
    proof (cases "workerId + 1 < worldSize")
      case True
      with self lt show ?thesis
        by (intro get [of "workerId + 1"]) (auto simp: collectNames_loop_skip)
    next
      case False
      with self lt have "collectNames_loop selfId worldSize workerId nameToId = Return nameToId"
        by (simp add: collectNames_loop_skip collectNames_loop_done)
      moreover from False self lt have "{workerId..<worldSize} - {selfId} = {}"
        by auto
      ultimately show ?thesis by (rule ret)
    qed
  qed
qed

lemma group_ids:
  assumes "valid_group ws"
  shows "fst ` set ws = {0..<int (length ws)}"
proof -
  from assms have d: "distinct (map fst ws)" and s: "set (map fst ws) \<subseteq> {0..<int (length ws)}"
    by (simp_all add: valid_group_def)
  from d have "card (set (map fst ws)) = length ws"
    using distinct_card by fastforce
  then have "card (set (map fst ws)) = card {0..<int (length ws)}"
    by simp
  with s have "set (map fst ws) = {0..<int (length ws)}"
    by (intro card_subset_eq) simp_all
  then show ?thesis by simp
qed

lemma group_name_unique:
  "valid_group ws \<Longrightarrow> (wid, name) \<in> set ws \<Longrightarrow> (wid, name') \<in> set ws \<Longrightarrow> name = name'"
  by (auto simp: valid_group_def dest: eq_key_imp_eq_value)

lemma group_id_unique:
  assumes "valid_group ws" "(wid, name) \<in> set ws" "(wid', name) \<in> set ws"
  shows "wid = wid'"
proof -
  from assms(1) have "distinct (map fst (map (\<lambda>(wid, name). (name, wid)) ws))"
    by (simp add: valid_group_def split_beta comp_def)
  moreover from assms(2,3) have "(name, wid) \<in> set (map (\<lambda>(wid, name). (name, wid)) ws)"
    "(name, wid') \<in> set (map (\<lambda>(wid, name). (name, wid)) ws)"
    by force+
  ultimately show ?thesis
    by (rule eq_key_imp_eq_value)
qed

lemma group_nth_id_inj:
  "valid_group ws \<Longrightarrow> p < length ws \<Longrightarrow> q < length ws \<Longrightarrow> fst (ws ! p) = fst (ws ! q) \<Longrightarrow> p = q"
  by (metis valid_group_def length_map nth_eq_iff_index_eq nth_map)


lemma registry_worker_inv_store:
  "registry_worker_inv ws st w p pot \<Longrightarrow>
   st' (to_string (fst w)) = st (to_string (fst w)) \<Longrightarrow>
   registry_worker_inv ws st' w p pot"
  by (auto simp: registry_worker_inv_def)

lemma sum_list_update_pred:
  fixes pots :: "nat list"
  assumes "q < length pots" "pots ! q = Suc x"
  shows "Suc (sum_list (pots[q := x])) = sum_list pots"
proof -
  have "pots ! q \<le> sum_list pots"
    using assms(1) by (rule elem_le_sum_list)
  with assms show ?thesis
    by (simp add: sum_list_update)
qed

lemma registry_inv_step:
  assumes "length ps = length ws" "length pots = length ws" "q < length ws"
    and "n + sum_list pots = length ws * length ws"
    and "pots ! q = Suc x"
    and "\<forall>p < length ws. registry_worker_inv ws st (ws ! p) (ps ! p) (pots ! p)"
    and "\<forall>p < length ws. p \<noteq> q \<longrightarrow> st' (to_string (fst (ws ! p))) = st (to_string (fst (ws ! p)))"
    and "registry_worker_inv ws st' (ws ! q) p' x"
    and "\<forall>w \<in> set ws. st' (to_string (fst w)) = None \<or> st' (to_string (fst w)) = Some (snd w)"
  shows "registry_inv ws (Suc n) (st', ps[q := p'])"
proof -
  have "Suc n + sum_list (pots[q := x]) = length ws * length ws"
    using sum_list_update_pred [of q pots x] assms(2,3,4,5) by simp
  moreover have "registry_worker_inv ws st' (ws ! p) (ps[q := p'] ! p) (pots[q := x] ! p)"
    if "p < length ws" for p
  proof (cases "p = q")
    case True
    with assms(1,2,3,8) show ?thesis by simp
  next
    case False
    with assms(6,7) that have "registry_worker_inv ws st' (ws ! p) (ps ! p) (pots ! p)"
      by (auto intro: registry_worker_inv_store [of ws st])
    with False show ?thesis by simp
  qed
  ultimately have "length (pots[q := x]) = length ws
      \<and> Suc n + sum_list (pots[q := x]) = length ws * length ws
      \<and> (\<forall>p < length ws.
            registry_worker_inv ws st' (ws ! p) (ps[q := p'] ! p) (pots[q := x] ! p))"
    using assms(2) by simp
  then have "\<exists>pots'. length pots' = length ws
      \<and> Suc n + sum_list pots' = length ws * length ws
      \<and> (\<forall>p < length ws. registry_worker_inv ws st' (ws ! p) (ps[q := p'] ! p) (pots' ! p))"
    by (rule exI)
  with assms(1,9) show ?thesis
    unfolding registry_inv_def by simp
qed

lemma card_loop_rest:
  fixes k N i :: int
  assumes "k < N" "k \<noteq> i"
  shows "card ({k..<N} - {i}) = Suc (card ({k + 1..<N} - {i}))"
proof -
  have "{k..<N} - {i} = insert k ({k + 1..<N} - {i})"
    using assms by auto
  moreover have "k \<notin> {k + 1..<N} - {i}" by simp
  ultimately show ?thesis by simp
qed

lemma registry_step:
  assumes vg: "valid_group ws" and inv: "registry_inv ws n c" and step: "cstep c q = Some c'"
  shows "registry_inv ws (Suc n) c'"
proof -
  obtain st ps where c: "c = (st, ps)" by (cases c)
  let ?N = "int (length ws)"
  from inv c obtain pots where
    len: "length ps = length ws" and plen: "length pots = length ws"
    and store: "\<forall>w \<in> set ws. st (to_string (fst w)) = None \<or> st (to_string (fst w)) = Some (snd w)"
    and total: "n + sum_list pots = length ws * length ws"
    and workers: "\<forall>p < length ws. registry_worker_inv ws st (ws ! p) (ps ! p) (pots ! p)"
    by (auto simp: registry_inv_def)
  from step c len obtain ev st' p' where
    q: "q < length ws" and ex: "exec st (ps ! q) = Some (ev, st', p')"
    and c': "c' = (st', ps[q := p'])"
    by (auto simp: cstep_def split: if_splits option.splits)
  obtain selfId selfName where w: "ws ! q = (selfId, selfName)" by (cases "ws ! q")
  from q w have mem: "(selfId, selfName) \<in> set ws"
    by (metis nth_mem)
  from workers q have "registry_worker_inv ws st (ws ! q) (ps ! q) (pots ! q)" by simp
  then consider
    (first) "ps ! q = collectNames selfId selfName ?N"
      "pots ! q = Suc (card ({0..<?N} - {selfId}))"
  | (loop) workerId nameToId where
      "st (to_string selfId) = Some selfName"
      "ps ! q = collectNames_loop selfId ?N workerId nameToId"
      "loop_table_ok ws selfId workerId nameToId"
      "pots ! q = card ({workerId..<?N} - {selfId})"
    by (auto simp: registry_worker_inv_def w)
  then have "registry_inv ws (Suc n) (st', ps[q := p'])"
  proof cases
    case first
    with ex have st': "st' = st(to_string selfId \<mapsto> selfName)"
      and p': "p' = collectNames_loop selfId ?N 0 [(selfName, selfId)]"
      by (simp_all add: collectNames_def store_set_def)
    show ?thesis
    proof (rule registry_inv_step [OF len plen q total first(2) workers])
      show "\<forall>p < length ws. p \<noteq> q \<longrightarrow>
              st' (to_string (fst (ws ! p))) = st (to_string (fst (ws ! p)))"
      proof (intro allI impI)
        fix p assume "p < length ws" "p \<noteq> q"
        with group_nth_id_inj [OF vg _ q, of p] w have "fst (ws ! p) \<noteq> selfId"
          by auto
        then show "st' (to_string (fst (ws ! p))) = st (to_string (fst (ws ! p)))"
          by (simp add: st' to_string_eq_iff)
      qed
      have "loop_table_ok ws selfId 0 [(selfName, selfId)]"
        using mem by (simp add: loop_table_ok_def)
      then show "registry_worker_inv ws st' (ws ! q) p' (card ({0..<?N} - {selfId}))"
        unfolding registry_worker_inv_def w p' st' by (intro disjI2) auto
      show "\<forall>w \<in> set ws. st' (to_string (fst w)) = None \<or> st' (to_string (fst w)) = Some (snd w)"
      proof
        fix w' assume w': "w' \<in> set ws"
        show "st' (to_string (fst w')) = None \<or> st' (to_string (fst w')) = Some (snd w')"
        proof (cases "fst w' = selfId")
          case True
          with w' have "(selfId, snd w') \<in> set ws" by (metis prod.collapse)
          with mem have "snd w' = selfName" using group_name_unique [OF vg] by blast
          with True show ?thesis by (simp add: st')
        next
          case False
          with store w' show ?thesis by (simp add: st' to_string_eq_iff)
        qed
      qed
    qed
  next
    case (loop workerId nameToId)
    note ok = loop(3) [unfolded loop_table_ok_def]
    show ?thesis
    proof (cases rule: collectNames_loop_cases [of selfId ?N workerId nameToId])
      case ret
      with ex loop(2) show ?thesis by simp
    next
      case (get k)
      from ex loop(2) get(6) collectNames_loop_get [OF get(1,2), of nameToId]
      obtain name where name: "st (to_string k) = Some name" and st': "st' = st"
        and p'0: "p' = (case find_name nameToId name of
                         Some other \<Rightarrow> Throw (NameCollision name other k)
                       | None \<Rightarrow> collectNames_loop selfId ?N (k + 1) (emplace nameToId name k))"
        by (auto split: option.splits)
      from ok get(3) have k0: "0 \<le> k" by simp
      with get(1) have "k \<in> {0..<?N}" by simp
      then have "k \<in> fst ` set ws" by (simp only: group_ids [OF vg])
      then obtain name' where kmem: "(k, name') \<in> set ws"
        by force
      with store name have kname: "(k, name) \<in> set ws" by force
      have ids: "snd ` set nameToId = insert selfId {0..<k}"
        using ok get(5) by simp
      have fresh_id: "k \<notin> snd ` set nameToId"
        using ids get(2) by simp
      have fresh: "find_name nameToId name = None"
      proof (cases "find_name nameToId name")
        case (Some other)
        then have m: "(name, other) \<in> set nameToId" by (rule find_name_SomeD)
        with ok have "(other, name) \<in> set ws" by auto
        with kname have "other = k" using group_id_unique [OF vg] by blast
        with m fresh_id show ?thesis by force
      qed simp
      then have p': "p' = collectNames_loop selfId ?N (k + 1) (nameToId @ [(name, k)])"
        by (simp add: p'0 emplace_fresh)
      have pot: "pots ! q = Suc (card ({k + 1..<?N} - {selfId}))"
        using loop(4) get(4) card_loop_rest [OF get(1,2)] by simp
      show ?thesis
        unfolding st'
      proof (rule registry_inv_step [OF len plen q total pot workers])
        have "loop_table_ok ws selfId (k + 1) (nameToId @ [(name, k)])"
          unfolding loop_table_ok_def
        proof (intro conjI)
          show "0 \<le> k + 1" using k0 by simp
          show "k + 1 \<le> ?N" using get(1) by simp
          show "distinct (map snd (nameToId @ [(name, k)]))"
            using ok fresh_id by simp
          show "snd ` set (nameToId @ [(name, k)]) = insert selfId {0..<k + 1}"
            using ids ids_step [OF k0, of selfId] by simp
          show "\<forall>(name, wid) \<in> set (nameToId @ [(name, k)]). (wid, name) \<in> set ws"
            using ok kname by simp
        qed
        with loop(1) show "registry_worker_inv ws st (ws ! q) p' (card ({k + 1..<?N} - {selfId}))"
          unfolding registry_worker_inv_def w p' by (intro disjI2) auto
      qed (use store in simp_all)
    qed
  qed
  with c' show ?thesis by simp
qed


lemma sum_list_const: "\<forall>x \<in> set xs. f x = c \<Longrightarrow> sum_list (map f xs) = length xs * c" for c :: nat
  by (induction xs) simp_all

lemma card_others:
  fixes i :: int
  assumes "0 \<le> i" "i < int n"
  shows "Suc (card ({0..<int n} - {i})) = n"
proof -
  have "card ({0..<int n} - {i}) = card {0..<int n} - 1"
    using assms by (intro card_Diff_singleton) simp
  with assms show ?thesis by simp
qed

lemma registry_inv_init:
  assumes vg: "valid_group ws" and fresh: "fresh_store ws st0"
  shows "registry_inv ws 0 (st0, registry_group ws)"
proof -
  let ?N = "int (length ws)"
  let ?pots = "map (\<lambda>w. Suc (card ({0..<?N} - {fst w}))) ws"
  have ids: "0 \<le> fst w \<and> fst w < ?N" if "w \<in> set ws" for w
    using that group_ids [OF vg] by (metis atLeastLessThan_iff image_eqI)
  have "\<forall>w \<in> set ws. Suc (card ({0..<?N} - {fst w})) = length ws"
    using ids card_others by blast
  then have "sum_list ?pots = length ws * length ws"
    by (rule sum_list_const)
  moreover have "\<forall>p < length ws. registry_worker_inv ws st0 (ws ! p) (registry_group ws ! p) (?pots ! p)"
    by (simp add: registry_worker_inv_def registry_group_def split_beta)
  moreover have "\<forall>w \<in> set ws. st0 (to_string (fst w)) = None"
    using fresh by (simp add: fresh_store_def list_all_iff)
  ultimately show ?thesis
    unfolding registry_inv_def
    by (auto simp: registry_group_def intro!: exI [of _ ?pots])
qed

lemma registry_inv_crun:
  assumes "valid_group ws"
  shows "registry_inv ws n c \<Longrightarrow> crun c sched = Some c' \<Longrightarrow>
         registry_inv ws (n + length sched) c'"
proof (induction sched arbitrary: n c)
  case Nil
  then show ?case by simp
next
  case (Cons q sched)
  from Cons.prems(2) obtain c1 where s: "cstep c q = Some c1" and r: "crun c1 sched = Some c'"
    by (auto split: option.splits)
  from registry_step [OF assms Cons.prems(1) s] have "registry_inv ws (Suc n) c1" .
  from Cons.IH [OF this r] show ?case by simp
qed


lemma registry_inv_worker:
  assumes "registry_inv ws n (st, ps)" "p < length ws"
  obtains (first) "ps ! p = collectNames (fst (ws ! p)) (snd (ws ! p)) (int (length ws))"
  | (loop) workerId nameToId where
      "st (to_string (fst (ws ! p))) = Some (snd (ws ! p))"
      "ps ! p = collectNames_loop (fst (ws ! p)) (int (length ws)) workerId nameToId"
      "loop_table_ok ws (fst (ws ! p)) workerId nameToId"
  using assms unfolding registry_inv_def registry_worker_inv_def by auto

lemma final_table:
  assumes vg: "valid_group ws"
    and ok: "loop_table_ok ws selfId workerId t"
    and self: "selfId \<in> {0..<int (length ws)}"
    and rest: "{workerId..<int (length ws)} - {selfId} = {}"
  shows "map_of t = registry_map ws \<and> length t = length ws
         \<and> distinct (map fst t) \<and> distinct (map snd t)"
proof -
  let ?N = "int (length ws)"
  let ?sw = "map (\<lambda>(wid, name). (name, wid)) ws"
  from ok have k: "0 \<le> workerId" "workerId \<le> ?N" and d: "distinct (map snd t)"
    and ids0: "snd ` set t = insert selfId {0..<workerId}"
    and ent: "\<forall>(name, wid) \<in> set t. (wid, name) \<in> set ws"
    by (simp_all add: loop_table_ok_def)
  have "x = selfId" if "workerId \<le> x" "x < ?N" for x
    using rest that by auto
  then have ids: "snd ` set t = {0..<?N}"
    using ids0 k self by force
  have sub: "set t \<subseteq> set ?sw"
    using ent by force
  have sup: "set ?sw \<subseteq> set t"
  proof
    fix e assume "e \<in> set ?sw"
    then obtain wid name where e: "e = (name, wid)" and m: "(wid, name) \<in> set ws"
      by auto
    from m group_ids [OF vg] have "wid \<in> {0..<?N}"
      by (metis fst_conv image_eqI)
    with ids obtain name' where m': "(name', wid) \<in> set t"
      by force
    with ent have "(wid, name') \<in> set ws" by auto
    with m have "name' = name" using group_name_unique [OF vg] by blast
    with m' e show "e \<in> set t" by simp
  qed
  have dsw: "distinct (map fst ?sw)"
    using vg by (simp add: valid_group_def split_beta comp_def)
  have inj: "inj_on fst (set t)"
  proof (rule inj_onI)
    fix x y assume "x \<in> set t" "y \<in> set t" "fst x = fst y"
    with sub have "(snd x, fst x) \<in> set ws" "(snd y, fst x) \<in> set ws"
      by force+
    then have "snd x = snd y" by (rule group_id_unique [OF vg])
    with \<open>fst x = fst y\<close> show "x = y" by (simp add: prod_eq_iff)
  qed
  from d have dt: "distinct t" by (simp add: distinct_map)
  with inj have dn: "distinct (map fst t)" by (simp add: distinct_map)
  have "map_of t = map_of ?sw"
    using dn dsw sub sup by (simp add: map_of_inject_set)
  moreover have "length t = length ws"
  proof -
    have "length t = card (set (map snd t))"
      using d distinct_card [of "map snd t"] by simp
    also have "\<dots> = card {0..<?N}" using ids by simp
    finally show ?thesis by simp
  qed
  ultimately show ?thesis
    using d dn by (simp add: registry_map_def)
qed

lemma registry_inv_finished:
  assumes vg: "valid_group ws" and inv: "registry_inv ws n (st, ps)"
    and p: "p < length ws" and fin: "finished (ps ! p)"
  shows "\<exists>t. ps ! p = Return t \<and> map_of t = registry_map ws \<and> length t = length ws
             \<and> distinct (map fst t) \<and> distinct (map snd t)"
proof (cases rule: registry_inv_worker [OF inv p, case_names first loop])
  case first
  with fin show ?thesis by (simp add: collectNames_def)
next
  case (loop workerId nameToId)
  have self: "fst (ws ! p) \<in> {0..<int (length ws)}"
    using group_ids [OF vg] p by (metis image_eqI nth_mem)
  show ?thesis
  proof (cases rule: collectNames_loop_cases [of "fst (ws ! p)" "int (length ws)" workerId nameToId])
    case ret
    from final_table [OF vg loop(3) self ret(2)] loop(2) ret(1) show ?thesis by simp
  next
    case (get k)
    with fin loop(2) collectNames_loop_get [OF get(1,2), of nameToId] show ?thesis by simp
  qed
qed

lemma registry_inv_progress:
  assumes vg: "valid_group ws" and inv: "registry_inv ws n (st, ps)"
    and p: "p < length ws" and nfin: "\<not> finished (ps ! p)"
  shows "\<exists>q < length ws. cstep (st, ps) q \<noteq> None"
proof -
  from inv have len: "length ps = length ws" by (simp add: registry_inv_def)
  have first_steps: "cstep (st, ps) q \<noteq> None"
    if "q < length ws" "ps ! q = collectNames (fst (ws ! q)) (snd (ws ! q)) (int (length ws))" for q
    using that len by (simp add: cstep_def collectNames_def)
  show ?thesis
  proof (cases rule: registry_inv_worker [OF inv p, case_names first loop])
    case first
    with first_steps p show ?thesis by blast
  next
    case (loop workerId nameToId)
    from loop(3) have k0: "0 \<le> workerId" by (simp add: loop_table_ok_def)
    show ?thesis
    proof (cases rule: collectNames_loop_cases [of "fst (ws ! p)" "int (length ws)" workerId nameToId])
      case ret
      with nfin loop(2) show ?thesis by simp
    next
      case (get k)
      note shape = collectNames_loop_get [OF get(1,2), of nameToId]
      show ?thesis
      proof (cases "st (to_string k)")
        case (Some name)
        with p len loop(2) get(6) shape have "cstep (st, ps) p \<noteq> None"
          by (simp add: cstep_def)
        with p show ?thesis by blast
      next
        case None
        from k0 get(1,3) have "k \<in> {0..<int (length ws)}" by simp
        then have "k \<in> fst ` set ws" by (simp only: group_ids [OF vg])
        then obtain q where q: "q < length ws" "fst (ws ! q) = k"
          by (metis imageE in_set_conv_nth)
        have "ps ! q = collectNames (fst (ws ! q)) (snd (ws ! q)) (int (length ws))"
        proof (cases rule: registry_inv_worker [OF inv q(1), case_names first loop])
          case (loop workerId' nameToId')
          with None q(2) show ?thesis by simp
        qed
        with first_steps q(1) show ?thesis by blast
      qed
    qed
  qed
qed

text \<open>
  Claim C2. Let the workers of a group have pairwise distinct ids below the size of the
  group and pairwise distinct names, let each call \<^verbatim>\<open>collectNames\<close> with its pair and
  the size, on a store that holds none of their id keys, and let them take their store
  operations in any order (any schedule). Then in every configuration they reach, a
  worker whose call has ended has returned a table, and every such table is the same
  map: each name of the group to its id, one entry per worker. No configuration is
  stuck: while a call has not ended some worker can take a step, and a schedule has at
  most \<open>size * size\<close> steps; so every worker returns, and all return the same table.
\<close>

theorem registry_group_tables:
  assumes "valid_group ws" and "fresh_store ws st0"
    and "crun (st0, registry_group ws) sched = Some (st, ps)"
  shows "length ps = length ws
     \<and> (\<forall>p < length ws. finished (ps ! p) \<longrightarrow>
           (\<exists>t. ps ! p = Return t \<and> map_of t = registry_map ws \<and> length t = length ws
                \<and> distinct (map fst t) \<and> distinct (map snd t)))
     \<and> ((\<exists>p < length ws. \<not> finished (ps ! p)) \<longrightarrow> (\<exists>q < length ws. cstep (st, ps) q \<noteq> None))
     \<and> length sched \<le> length ws * length ws"
proof -
  from registry_inv_crun [OF assms(1) registry_inv_init [OF assms(1,2)] assms(3)]
  have inv: "registry_inv ws (length sched) (st, ps)" by simp
  then have "length ps = length ws" and "length sched \<le> length ws * length ws"
    by (auto simp: registry_inv_def)
  with registry_inv_finished [OF assms(1) inv] registry_inv_progress [OF assms(1) inv]
  show ?thesis by blast
qed


text \<open>
  The workers (0, a), (1, b), (2, c) on an empty store, under one schedule to the end:
  every worker obtains the table a to 0, b to 1, c to 2.
\<close>

theorem registry_group_tables_witness:
  "valid_group [(0, ''a''), (1, ''b''), (2, ''c'')]
   \<and> fresh_store [(0, ''a''), (1, ''b''), (2, ''c'')] Map.empty
   \<and> crun (Map.empty, registry_group [(0, ''a''), (1, ''b''), (2, ''c'')]) [0, 1, 2, 0, 0, 1, 1, 2, 2]
       = Some ([''0'' \<mapsto> ''a'', ''1'' \<mapsto> ''b'', ''2'' \<mapsto> ''c''],
               [Return [(''a'', 0), (''b'', 1), (''c'', 2)],
                Return [(''b'', 1), (''a'', 0), (''c'', 2)],
                Return [(''c'', 2), (''a'', 0), (''b'', 1)]])
   \<and> registry_map [(0, ''a''), (1, ''b''), (2, ''c'')] = [''a'' \<mapsto> 0, ''b'' \<mapsto> 1, ''c'' \<mapsto> 2]
   \<and> map_of [(''a'', 0), (''b'', 1), (''c'', 2)] = registry_map [(0, ''a''), (1, ''b''), (2, ''c'')]
   \<and> map_of [(''b'', 1), (''a'', 0), (''c'', 2)] = registry_map [(0, ''a''), (1, ''b''), (2, ''c'')]
   \<and> map_of [(''c'', 2), (''a'', 0), (''b'', 1)] = registry_map [(0, ''a''), (1, ''b''), (2, ''c'')]
   \<and> length [0, 1, 2, 0, 0, 1, 1, 2, 2 :: nat] \<le> 3 * 3"
proof -
  let ?ws = "[(0, ''a''), (1, ''b''), (2, ''c'')] :: (int \<times> string) list"
  have vg: "valid_group ?ws"
    by (simp add: valid_group_def)
  have fresh: "fresh_store ?ws Map.empty"
    by (simp add: fresh_store_def)
  have run: "crun (Map.empty, registry_group ?ws) [0, 1, 2, 0, 0, 1, 1, 2, 2]
       = Some ([''0'' \<mapsto> ''a'', ''1'' \<mapsto> ''b'', ''2'' \<mapsto> ''c''],
               [Return [(''a'', 0), (''b'', 1), (''c'', 2)],
                Return [(''b'', 1), (''a'', 0), (''c'', 2)],
                Return [(''c'', 2), (''a'', 0), (''b'', 1)]])"
    by (simp add: registry_group_def cstep_def collectNames_def collectNames_loop.simps
        store_set_def emplace_def find_name_def to_string_small)
  have m: "registry_map ?ws = [''a'' \<mapsto> 0, ''b'' \<mapsto> 1, ''c'' \<mapsto> 2]"
    by (rule ext) (simp add: registry_map_def)
  let ?ps = "[Return [(''a'', 0), (''b'', 1), (''c'', 2)],
              Return [(''b'', 1), (''a'', 0), (''c'', 2)],
              Return [(''c'', 2), (''a'', 0), (''b'', 1)]] :: nametable prog list"
  from registry_group_tables [OF vg fresh run]
  have all: "\<forall>p < length ?ws. finished (?ps ! p) \<longrightarrow>
           (\<exists>t. ?ps ! p = Return t \<and> map_of t = registry_map ?ws \<and> length t = length ?ws
                \<and> distinct (map fst t) \<and> distinct (map snd t))"
    by (rule conjunct1 [OF conjunct2])
  from all [rule_format, of 0]
  have t0: "map_of [(''a'', 0), (''b'', 1), (''c'', 2)] = registry_map ?ws"
    by simp
  from all [rule_format, of 1]
  have t1: "map_of [(''b'', 1), (''a'', 0), (''c'', 2)] = registry_map ?ws"
    by simp
  from all [rule_format, of 2]
  have t2: "map_of [(''c'', 2), (''a'', 0), (''b'', 1)] = registry_map ?ws"
    by simp
  from vg fresh run m t0 t1 t2 show ?thesis
    by (intro conjI) simp_all
qed

subsection \<open>A group of workers at the barrier\<close>

lemma sync_stage_0:
  "sync_stage (pck, ack, rk) W a S 0
   = StoreAdd ack a (\<lambda>total1. sync_stage (pck, ack, rk) W a S (Suc 0))"
  by (simp add: sync_stage_def syncCallCount_ops_def sync_wait_def sync_read_def Let_def
      cong: if_cong)

lemma sync_stage_1:
  "sync_stage (pck, ack, rk) W a S (Suc 0) =
   StoreAdd pck 1 (\<lambda>total2. if to_int32 total2 = W then sync_stage (pck, ack, rk) W a S 2
                            else sync_stage (pck, ack, rk) W a S 3)"
  by (simp add: sync_stage_def cong: if_cong)

lemma sync_stage_2:
  "sync_stage (pck, ack, rk) W a S 2 = StoreSet rk [] (sync_stage (pck, ack, rk) W a S 3)"
  by (simp add: sync_stage_def)

lemma sync_stage_3:
  "sync_stage (pck, ack, rk) W a S 3 = StoreWait rk (sync_stage (pck, ack, rk) W a S 4)"
  by (simp add: sync_stage_def sync_wait_def)

lemma sync_stage_4:
  "sync_stage (pck, ack, rk) W a S 4 =
   StoreGet ack (\<lambda>activeCallCountData.
     case stoi activeCallCountData of Inl e \<Rightarrow> Throw e | Inr totalCallCount \<Rightarrow> Return totalCallCount)"
  by (simp add: sync_stage_def sync_read_def)

lemma sync_stage_5: "sync_stage (pck, ack, rk) W a S 5 = sync_result S"
  by (simp add: sync_stage_def)

lemma sync_result_cases:
  "sync_result S = (if in_int_range S then Return S else Throw StoiOutOfRange)"
  by (simp add: sync_result_def stoi_to_string stoi_to_string_out)

lemma finished_sync_result: "finished (sync_result S)"
  by (simp add: sync_result_cases)

lemma stage_cases:
  assumes "s \<le> (5::nat)"
  obtains "s = 0" | "s = Suc 0" | "s = 2" | "s = 3" | "s = 4" | "s = 5"
  using assms by linarith

lemma finished_sync_stage:
  "s \<le> 5 \<Longrightarrow> finished (sync_stage (pck, ack, rk) W a S s) \<longleftrightarrow> s = 5"
  by (erule stage_cases)
    (simp_all add: sync_stage_0 sync_stage_1 sync_stage_2 sync_stage_3 sync_stage_4 sync_stage_5
      finished_sync_result)

lemma added_calls_update:
  assumes "q < length calls" "length sg = length calls"
  shows "added_calls calls (sg[q := s])
         = added_calls calls sg - (if 1 \<le> sg ! q then calls ! q else 0)
           + (if 1 \<le> s then calls ! q else 0)"
proof -
  let ?F = "\<lambda>sg p. if 1 \<le> sg ! p then calls ! p else (0::int)"
  have fin: "finite {..<length calls}" by simp
  have mem: "q \<in> {..<length calls}" using assms by simp
  have "sum (?F (sg[q := s])) ({..<length calls} - {q}) = sum (?F sg) ({..<length calls} - {q})"
    by (rule sum.cong) simp_all
  moreover have "sum (?F (sg[q := s])) {..<length calls}
        = ?F (sg[q := s]) q + sum (?F (sg[q := s])) ({..<length calls} - {q})"
    by (rule sum.remove [OF fin mem])
  moreover have "sum (?F sg) {..<length calls} = ?F sg q + sum (?F sg) ({..<length calls} - {q})"
    by (rule sum.remove [OF fin mem])
  ultimately show ?thesis
    using assms by (simp add: added_calls_def)
qed

lemma added_calls_none: "\<forall>p < length calls. sg ! p = 0 \<Longrightarrow> added_calls calls sg = 0"
  by (simp add: added_calls_def)

lemma added_calls_all:
  assumes "\<forall>p < length calls. 1 \<le> sg ! p"
  shows "added_calls calls sg = sum_list calls"
proof -
  have "added_calls calls sg = (\<Sum>p < length calls. calls ! p)"
    unfolding added_calls_def using assms by (intro sum.cong) simp_all
  also have "\<dots> = sum_list calls"
    by (simp add: sum_list_sum_nth atLeast0LessThan)
  finally show ?thesis .
qed

lemma counted_finite: "finite (counted calls sg)"
  by (simp add: counted_def)

lemma nth_stage_update:
  "length sg = length calls \<Longrightarrow> p < length calls \<Longrightarrow>
   sg[q := s] ! p = (if p = q then s else sg ! p)"
  by (simp add: nth_list_update)

lemma counted_update_same:
  assumes "length sg = length calls" "(2 \<le> sg ! q) = (2 \<le> s)"
  shows "counted calls (sg[q := s]) = counted calls sg"
proof -
  have "(2 \<le> sg[q := s] ! p) = (2 \<le> sg ! p)" if "p < length calls" for p
    using assms that by (simp add: nth_stage_update)
  then show ?thesis by (auto simp: counted_def)
qed

lemma counted_update_new:
  assumes "q < length calls" "length sg = length calls" "sg ! q < 2" "2 \<le> s"
  shows "counted calls (sg[q := s]) = insert q (counted calls sg)" and "q \<notin> counted calls sg"
proof -
  have "(2 \<le> sg[q := s] ! p) = (p = q \<or> 2 \<le> sg ! p)" if "p < length calls" for p
    using assms that by (simp add: nth_stage_update)
  with assms(1) show "counted calls (sg[q := s]) = insert q (counted calls sg)"
    by (auto simp: counted_def)
  from assms(3) show "q \<notin> counted calls sg"
    by (simp add: counted_def)
qed

lemma counted_all:
  "card (counted calls sg) = length calls \<longleftrightarrow> (\<forall>p < length calls. 2 \<le> sg ! p)"
proof
  assume c: "card (counted calls sg) = length calls"
  have "counted calls sg \<subseteq> {..<length calls}" by (auto simp: counted_def)
  moreover have "card (counted calls sg) = card {..<length calls}" using c by simp
  ultimately have "counted calls sg = {..<length calls}"
    by (intro card_subset_eq) simp_all
  then show "\<forall>p < length calls. 2 \<le> sg ! p"
    by (auto simp: counted_def)
next
  assume "\<forall>p < length calls. 2 \<le> sg ! p"
  then have "counted calls sg = {..<length calls}" by (auto simp: counted_def)
  then show "card (counted calls sg) = length calls" by simp
qed

lemma counted_le: "card (counted calls sg) \<le> length calls"
proof -
  have "counted calls sg \<subseteq> {..<length calls}" by (auto simp: counted_def)
  then have "card (counted calls sg) \<le> card {..<length calls}"
    by (intro card_mono) simp_all
  then show ?thesis by simp
qed

lemma counted_empty: "counted calls sg = {} \<longleftrightarrow> (\<forall>p < length calls. sg ! p \<le> 1)"
  by (auto simp: counted_def not_le) 

lemma sum_list_update_grow:
  fixes sg :: "nat list"
  assumes "q < length sg" "sg ! q < s" "n \<le> sum_list sg"
  shows "Suc n \<le> sum_list (sg[q := s])"
proof -
  have "sg ! q \<le> sum_list sg" using assms(1) by (rule elem_le_sum_list)
  with assms show ?thesis by (simp add: sum_list_update)
qed


lemma barrier_invI:
  assumes "length sg = length calls" "length ps = length calls"
    and "\<forall>p < length calls.
           sg ! p \<le> 5
           \<and> ps ! p = sync_stage (pck, ack, rk) (int (length calls)) (calls ! p) (sum_list calls) (sg ! p)"
    and "st ack = (if \<forall>p < length calls. sg ! p = 0 then None
                   else Some (to_string (added_calls calls sg)))"
    and "st pck = (if counted calls sg = {} then None
                   else Some (to_string (int (card (counted calls sg)))))"
    and "(st rk \<noteq> None \<or> (\<exists>p < length calls. sg ! p = 2 \<or> 4 \<le> sg ! p))
           \<longrightarrow> (\<forall>p < length calls. 2 \<le> sg ! p)"
    and "(\<forall>p < length calls. 2 \<le> sg ! p)
           \<longrightarrow> st rk \<noteq> None \<or> (\<exists>p < length calls. sg ! p = 2)"
    and "n \<le> sum_list sg"
  shows "barrier_inv (pck, ack, rk) calls n (st, ps)"
  unfolding barrier_inv_def using assms by (simp only: prod.case fst_conv snd_conv) blast

lemma barrier_invE:
  assumes "barrier_inv (pck, ack, rk) calls n (st, ps)"
  obtains sg where "length sg = length calls" "length ps = length calls"
    and "\<forall>p < length calls.
           sg ! p \<le> 5
           \<and> ps ! p = sync_stage (pck, ack, rk) (int (length calls)) (calls ! p) (sum_list calls) (sg ! p)"
    and "st ack = (if \<forall>p < length calls. sg ! p = 0 then None
                   else Some (to_string (added_calls calls sg)))"
    and "st pck = (if counted calls sg = {} then None
                   else Some (to_string (int (card (counted calls sg)))))"
    and "(st rk \<noteq> None \<or> (\<exists>p < length calls. sg ! p = 2 \<or> 4 \<le> sg ! p))
           \<longrightarrow> (\<forall>p < length calls. 2 \<le> sg ! p)"
    and "(\<forall>p < length calls. 2 \<le> sg ! p)
           \<longrightarrow> st rk \<noteq> None \<or> (\<exists>p < length calls. sg ! p = 2)"
    and "n \<le> sum_list sg"
  using assms unfolding barrier_inv_def by (simp only: prod.case fst_conv snd_conv) blast

lemma store_add_counter:
  "st k = (if b then None else Some (to_string x)) \<Longrightarrow> (b \<Longrightarrow> x = 0) \<Longrightarrow>
   store_add st k delta = (st(k \<mapsto> to_string (x + delta)), x + delta)"
  by (auto simp: store_add_def Let_def counter_val_to_string)

lemma stages_after_update:
  assumes "length sg = length calls" "length ps = length calls" "q < length calls" "s' \<le> 5"
    and "\<forall>p < length calls.
           sg ! p \<le> 5
           \<and> ps ! p = sync_stage keys W (calls ! p) S (sg ! p)"
  shows "\<forall>p < length calls.
           sg[q := s'] ! p \<le> 5
           \<and> ps[q := sync_stage keys W (calls ! q) S s'] ! p
               = sync_stage keys W (calls ! p) S (sg[q := s'] ! p)"
  using assms by (simp add: nth_list_update)


lemma barrier_step:
  assumes ne: "pck \<noteq> ack" "pck \<noteq> rk" "ack \<noteq> rk"
    and range: "int (length calls) \<le> INT_MAX"
    and inv: "barrier_inv (pck, ack, rk) calls n c"
    and step: "cstep c q = Some c'"
  shows "barrier_inv (pck, ack, rk) calls (Suc n) c'"
proof -
  let ?N = "length calls"
  let ?W = "int (length calls)"
  let ?S = "sum_list calls"
  let ?stage = "sync_stage (pck, ack, rk) ?W (calls ! q) ?S"
  obtain st ps where c: "c = (st, ps)" by (cases c)
  from inv [unfolded c] obtain sg where
    lsg: "length sg = ?N" and lps: "length ps = ?N"
    and stages: "\<forall>p < ?N. sg ! p \<le> 5
           \<and> ps ! p = sync_stage (pck, ack, rk) ?W (calls ! p) ?S (sg ! p)"
    and ackv: "st ack = (if \<forall>p < ?N. sg ! p = 0 then None
                   else Some (to_string (added_calls calls sg)))"
    and pckv: "st pck = (if counted calls sg = {} then None
                   else Some (to_string (int (card (counted calls sg)))))"
    and late: "(st rk \<noteq> None \<or> (\<exists>p < ?N. sg ! p = 2 \<or> 4 \<le> sg ! p))
           \<longrightarrow> (\<forall>p < ?N. 2 \<le> sg ! p)"
    and ready: "(\<forall>p < ?N. 2 \<le> sg ! p)
           \<longrightarrow> st rk \<noteq> None \<or> (\<exists>p < ?N. sg ! p = 2)"
    and steps: "n \<le> sum_list sg"
    by (rule barrier_invE)
  from step c lps obtain ev st' p' where
    q: "q < ?N" and ex: "exec st (ps ! q) = Some (ev, st', p')"
    and c': "c' = (st', ps[q := p'])"
    by (auto simp: cstep_def split: if_splits option.splits)
  from stages q have sq: "sg ! q \<le> 5" and pq: "ps ! q = ?stage (sg ! q)"
    by simp_all
  have upd: "sg[q := s'] ! p = (if p = q then s' else sg ! p)" if "p < ?N" for p s'
    using lsg that by (rule nth_stage_update)
  have grow: "Suc n \<le> sum_list (sg[q := s'])" if "sg ! q < s'" for s'
    using q lsg that steps by (intro sum_list_update_grow) simp_all
  have "barrier_inv (pck, ack, rk) calls (Suc n) (st', ps[q := p'])"
    using sq
  proof (cases rule: stage_cases)
    case 1
    let ?sg = "sg[q := Suc 0]"
    have cur: "store_add st ack (calls ! q)
        = (st(ack \<mapsto> to_string (added_calls calls sg + calls ! q)),
           added_calls calls sg + calls ! q)"
      using ackv by (rule store_add_counter) (rule added_calls_none)
    from ex pq 1 cur have st': "st' = st(ack \<mapsto> to_string (added_calls calls sg + calls ! q))"
      and p': "p' = ?stage (Suc 0)"
      by (simp_all add: sync_stage_0)
    have added: "added_calls calls ?sg = added_calls calls sg + calls ! q"
      using added_calls_update [OF q lsg, of "Suc 0"] 1 by simp
    have early: "\<not> (\<forall>p < ?N. 2 \<le> sg ! p)"
      using q 1 by auto
    show ?thesis
      unfolding p'
    proof (rule barrier_invI)
      show "length ?sg = ?N" using lsg by simp
      show "length (ps[q := ?stage (Suc 0)]) = ?N" using lps by simp
      show "\<forall>p < ?N. ?sg ! p \<le> 5
           \<and> ps[q := ?stage (Suc 0)] ! p
               = sync_stage (pck, ack, rk) ?W (calls ! p) ?S (?sg ! p)"
        using lsg lps q stages by (intro stages_after_update) simp_all
      show "st' ack = (if \<forall>p < ?N. ?sg ! p = 0 then None
                   else Some (to_string (added_calls calls ?sg)))"
        using q upd [of q "Suc 0"] by (auto simp: st' added)
      show "st' pck = (if counted calls ?sg = {} then None
                   else Some (to_string (int (card (counted calls ?sg)))))"
        using pckv ne 1 by (simp add: st' counted_update_same [OF lsg])
      show "(st' rk \<noteq> None \<or> (\<exists>p < ?N. ?sg ! p = 2 \<or> 4 \<le> ?sg ! p))
           \<longrightarrow> (\<forall>p < ?N. 2 \<le> ?sg ! p)"
      proof
        assume "st' rk \<noteq> None \<or> (\<exists>p < ?N. ?sg ! p = 2 \<or> 4 \<le> ?sg ! p)"
        then have "st rk \<noteq> None \<or> (\<exists>p < ?N. sg ! p = 2 \<or> 4 \<le> sg ! p)"
          using ne upd [of _ "Suc 0"] by (auto simp: st' split: if_splits)
        with late early show "\<forall>p < ?N. 2 \<le> ?sg ! p" by blast
      qed
      show "(\<forall>p < ?N. 2 \<le> ?sg ! p)
           \<longrightarrow> st' rk \<noteq> None \<or> (\<exists>p < ?N. ?sg ! p = 2)"
        using q upd [of q "Suc 0"] by auto
      show "Suc n \<le> sum_list ?sg" using 1 by (intro grow) simp
    qed
  next
    case 2
    let ?c = "card (counted calls sg)"
    let ?s = "if Suc ?c = ?N then 2 else 3 :: nat"
    let ?sg = "sg[q := ?s]"
    have cur: "store_add st pck 1
        = (st(pck \<mapsto> to_string (int ?c + 1)), int ?c + 1)"
      using pckv by (rule store_add_counter) simp
    have lt2: "sg ! q < 2" using 2 by simp
    have ge2: "2 \<le> ?s" by simp
    note new = counted_update_new [OF q lsg lt2 ge2]
    then have card: "card (counted calls ?sg) = Suc ?c"
      by (simp add: counted_finite)
    have "Suc ?c \<le> ?N"
      using counted_le [of calls ?sg] card by simp
    with range have "in_int_range (int ?c + 1)"
      by (simp add: in_int_range_def INT_MIN_def)
    then have "to_int32 (int ?c + 1) = int ?c + 1"
      by (rule to_int32_id)
    then have test: "to_int32 (int ?c + 1) = ?W \<longleftrightarrow> Suc ?c = ?N"
      by auto
    from ex pq 2 cur have st': "st' = st(pck \<mapsto> to_string (int ?c + 1))"
      and p': "p' = ?stage ?s"
      by (auto simp add: sync_stage_1 test split: if_splits)
    have all2: "(\<forall>p < ?N. 2 \<le> ?sg ! p) \<longleftrightarrow> Suc ?c = ?N"
      using counted_all [of calls ?sg] card by simp
    have added: "added_calls calls ?sg = added_calls calls sg"
      using added_calls_update [OF q lsg, of ?s] 2 by simp
    have early: "\<not> (\<forall>p < ?N. 2 \<le> sg ! p)"
      using q 2 by auto
    show ?thesis
      unfolding p'
    proof (rule barrier_invI)
      show "length ?sg = ?N" using lsg by simp
      show "length (ps[q := ?stage ?s]) = ?N" using lps by simp
      show "\<forall>p < ?N. ?sg ! p \<le> 5
           \<and> ps[q := ?stage ?s] ! p
               = sync_stage (pck, ack, rk) ?W (calls ! p) ?S (?sg ! p)"
        using lsg lps q stages by (intro stages_after_update) simp_all
      have "\<not> (\<forall>p < ?N. ?sg ! p = 0)" using q upd [of q ?s] by auto
      moreover have "\<not> (\<forall>p < ?N. sg ! p = 0)" using q 2 by auto
      ultimately have "(\<forall>p < ?N. ?sg ! p = 0) \<longleftrightarrow> (\<forall>p < ?N. sg ! p = 0)"
        by blast
      then show "st' ack = (if \<forall>p < ?N. ?sg ! p = 0 then None
                   else Some (to_string (added_calls calls ?sg)))"
        using ackv ne by (simp add: st' added)
      show "st' pck = (if counted calls ?sg = {} then None
                   else Some (to_string (int (card (counted calls ?sg)))))"
        by (simp add: st' new counted_finite add.commute)
      show "(st' rk \<noteq> None \<or> (\<exists>p < ?N. ?sg ! p = 2 \<or> 4 \<le> ?sg ! p))
           \<longrightarrow> (\<forall>p < ?N. 2 \<le> ?sg ! p)"
      proof (cases "Suc ?c = ?N")
        case True
        with all2 show ?thesis by simp
      next
        case False
        show ?thesis
        proof
          assume "st' rk \<noteq> None \<or> (\<exists>p < ?N. ?sg ! p = 2 \<or> 4 \<le> ?sg ! p)"
          then have "st rk \<noteq> None \<or> (\<exists>p < ?N. sg ! p = 2 \<or> 4 \<le> sg ! p)"
            using ne False upd [of _ ?s] by (auto simp: st' split: if_splits)
          with late early show "\<forall>p < ?N. 2 \<le> ?sg ! p" by blast
        qed
      qed
      show "(\<forall>p < ?N. 2 \<le> ?sg ! p)
           \<longrightarrow> st' rk \<noteq> None \<or> (\<exists>p < ?N. ?sg ! p = 2)"
      proof
        assume "\<forall>p < ?N. 2 \<le> ?sg ! p"
        with all2 have "?sg ! q = 2" using upd [of q ?s] q by simp
        with q show "st' rk \<noteq> None \<or> (\<exists>p < ?N. ?sg ! p = 2)" by blast
      qed
      show "Suc n \<le> sum_list ?sg" using 2 by (intro grow) simp
    qed
  next
    case 3
    let ?sg = "sg[q := 3]"
    from ex pq 3 have st': "st' = st(rk \<mapsto> [])" and p': "p' = ?stage 3"
      by (simp_all add: sync_stage_2 store_set_def)
    have added: "added_calls calls ?sg = added_calls calls sg"
      using added_calls_update [OF q lsg, of 3] 3 by simp
    have all2: "\<forall>p < ?N. 2 \<le> sg ! p"
      using late q 3 by blast
    show ?thesis
      unfolding p'
    proof (rule barrier_invI)
      show "length ?sg = ?N" using lsg by simp
      show "length (ps[q := ?stage 3]) = ?N" using lps by simp
      show "\<forall>p < ?N. ?sg ! p \<le> 5
           \<and> ps[q := ?stage 3] ! p
               = sync_stage (pck, ack, rk) ?W (calls ! p) ?S (?sg ! p)"
        using lsg lps q stages by (intro stages_after_update) simp_all
      have "\<not> (\<forall>p < ?N. ?sg ! p = 0)" using q upd [of q 3] by auto
      moreover have "\<not> (\<forall>p < ?N. sg ! p = 0)" using q 3 by auto
      ultimately have "(\<forall>p < ?N. ?sg ! p = 0) \<longleftrightarrow> (\<forall>p < ?N. sg ! p = 0)"
        by blast
      then show "st' ack = (if \<forall>p < ?N. ?sg ! p = 0 then None
                   else Some (to_string (added_calls calls ?sg)))"
        using ackv ne by (simp add: st' added)
      show "st' pck = (if counted calls ?sg = {} then None
                   else Some (to_string (int (card (counted calls ?sg)))))"
        using pckv ne 3 by (simp add: st' counted_update_same [OF lsg])
      show "(st' rk \<noteq> None \<or> (\<exists>p < ?N. ?sg ! p = 2 \<or> 4 \<le> ?sg ! p))
           \<longrightarrow> (\<forall>p < ?N. 2 \<le> ?sg ! p)"
        using all2 upd [of _ 3] by simp
      show "(\<forall>p < ?N. 2 \<le> ?sg ! p)
           \<longrightarrow> st' rk \<noteq> None \<or> (\<exists>p < ?N. ?sg ! p = 2)"
        by (simp add: st')
      show "Suc n \<le> sum_list ?sg" using 3 by (intro grow) simp
    qed
  next
    case 4
    let ?sg = "sg[q := 4]"
    from ex pq 4 have rk: "st rk \<noteq> None" and st': "st' = st" and p': "p' = ?stage 4"
      by (simp_all add: sync_stage_3 store_check_def split: if_splits)
    have added: "added_calls calls ?sg = added_calls calls sg"
      using added_calls_update [OF q lsg, of 4] 4 by simp
    have all2: "\<forall>p < ?N. 2 \<le> sg ! p"
      using late rk by blast
    show ?thesis
      unfolding p' st'
    proof (rule barrier_invI)
      show "length ?sg = ?N" using lsg by simp
      show "length (ps[q := ?stage 4]) = ?N" using lps by simp
      show "\<forall>p < ?N. ?sg ! p \<le> 5
           \<and> ps[q := ?stage 4] ! p
               = sync_stage (pck, ack, rk) ?W (calls ! p) ?S (?sg ! p)"
        using lsg lps q stages by (intro stages_after_update) simp_all
      have "\<not> (\<forall>p < ?N. ?sg ! p = 0)" using q upd [of q 4] by auto
      moreover have "\<not> (\<forall>p < ?N. sg ! p = 0)" using q 4 by auto
      ultimately have "(\<forall>p < ?N. ?sg ! p = 0) \<longleftrightarrow> (\<forall>p < ?N. sg ! p = 0)"
        by blast
      then show "st ack = (if \<forall>p < ?N. ?sg ! p = 0 then None
                   else Some (to_string (added_calls calls ?sg)))"
        using ackv by (simp add: added)
      show "st pck = (if counted calls ?sg = {} then None
                   else Some (to_string (int (card (counted calls ?sg)))))"
        using pckv 4 by (simp add: counted_update_same [OF lsg])
      show "(st rk \<noteq> None \<or> (\<exists>p < ?N. ?sg ! p = 2 \<or> 4 \<le> ?sg ! p))
           \<longrightarrow> (\<forall>p < ?N. 2 \<le> ?sg ! p)"
        using all2 upd [of _ 4] by simp
      show "(\<forall>p < ?N. 2 \<le> ?sg ! p)
           \<longrightarrow> st rk \<noteq> None \<or> (\<exists>p < ?N. ?sg ! p = 2)"
        using rk by simp
      show "Suc n \<le> sum_list ?sg" using 4 by (intro grow) simp
    qed
  next
    case 5
    let ?sg = "sg[q := 5]"
    have all2: "\<forall>p < ?N. 2 \<le> sg ! p"
      using late q 5 by auto
    then have all1: "\<forall>p < ?N. 1 \<le> sg ! p"
      by (meson le_trans one_le_numeral)
    have "\<not> (\<forall>p < ?N. sg ! p = 0)"
      using q 5 by auto
    with ackv added_calls_all [OF all1] have "st ack = Some (to_string ?S)"
      by simp
    with ex pq 5 have st': "st' = st" and p': "p' = ?stage 5"
      by (simp_all add: sync_stage_4 sync_stage_5 sync_result_def)
    have added: "added_calls calls ?sg = added_calls calls sg"
      using added_calls_update [OF q lsg, of 5] 5 by simp
    show ?thesis
      unfolding p' st'
    proof (rule barrier_invI)
      show "length ?sg = ?N" using lsg by simp
      show "length (ps[q := ?stage 5]) = ?N" using lps by simp
      show "\<forall>p < ?N. ?sg ! p \<le> 5
           \<and> ps[q := ?stage 5] ! p
               = sync_stage (pck, ack, rk) ?W (calls ! p) ?S (?sg ! p)"
        using lsg lps q stages by (intro stages_after_update) simp_all
      have "\<not> (\<forall>p < ?N. ?sg ! p = 0)" using q upd [of q 5] by auto
      moreover have "\<not> (\<forall>p < ?N. sg ! p = 0)" using q 5 by auto
      ultimately have "(\<forall>p < ?N. ?sg ! p = 0) \<longleftrightarrow> (\<forall>p < ?N. sg ! p = 0)"
        by blast
      then show "st ack = (if \<forall>p < ?N. ?sg ! p = 0 then None
                   else Some (to_string (added_calls calls ?sg)))"
        using ackv by (simp add: added)
      show "st pck = (if counted calls ?sg = {} then None
                   else Some (to_string (int (card (counted calls ?sg)))))"
        using pckv 5 by (simp add: counted_update_same [OF lsg])
      show "(st rk \<noteq> None \<or> (\<exists>p < ?N. ?sg ! p = 2 \<or> 4 \<le> ?sg ! p))
           \<longrightarrow> (\<forall>p < ?N. 2 \<le> ?sg ! p)"
        using all2 upd [of _ 5] by simp
      show "(\<forall>p < ?N. 2 \<le> ?sg ! p)
           \<longrightarrow> st rk \<noteq> None \<or> (\<exists>p < ?N. ?sg ! p = 2)"
      proof
        assume "\<forall>p < ?N. 2 \<le> ?sg ! p"
        from ready all2 have "st rk \<noteq> None \<or> (\<exists>p < ?N. sg ! p = 2)" by blast
        then show "st rk \<noteq> None \<or> (\<exists>p < ?N. ?sg ! p = 2)"
        proof (elim disjE exE conjE)
          fix p assume p: "p < ?N" "sg ! p = 2"
          with 5 have "p \<noteq> q" by auto
          with p upd [of p 5] have "?sg ! p = 2" by simp
          with p show ?thesis by blast
        qed simp
      qed
      show "Suc n \<le> sum_list ?sg" using 5 by (intro grow) simp
    qed
  next
    case 6
    with ex pq show ?thesis
      by (simp add: sync_stage_5 sync_result_cases split: if_splits)
  qed
  with c' show ?thesis by simp
qed


lemma barrier_group_stages:
  "fst (getNextKeyIds barrierId) = keys \<Longrightarrow>
   barrier_group barrierId calls
   = map (\<lambda>activeCalls. sync_stage keys (int (length calls)) activeCalls (sum_list calls) 0) calls"
  by (cases keys)
    (simp add: barrier_group_def syncCallCount_def sync_stage_def split_beta)

lemma barrier_inv_init:
  assumes "calls \<noteq> []" and "fst (getNextKeyIds barrierId) = (pck, ack, rk)"
    and "fresh_keys (pck, ack, rk) st0"
  shows "barrier_inv (pck, ack, rk) calls 0 (st0, barrier_group barrierId calls)"
proof -
  let ?sg = "replicate (length calls) (0::nat)"
  from assms(3) have fresh: "st0 pck = None" "st0 ack = None" "st0 rk = None"
    by (simp_all add: fresh_keys_def key_list_def)
  show ?thesis
  proof (rule barrier_invI [where sg = ?sg])
    show "\<forall>p < length calls.
            ?sg ! p \<le> 5
            \<and> barrier_group barrierId calls ! p
                = sync_stage (pck, ack, rk) (int (length calls)) (calls ! p) (sum_list calls)
                    (?sg ! p)"
      by (simp add: barrier_group_stages [OF assms(2)])
    show "st0 ack = (if \<forall>p < length calls. ?sg ! p = 0 then None
                     else Some (to_string (added_calls calls ?sg)))"
      using fresh by simp
    show "st0 pck = (if counted calls ?sg = {} then None
                     else Some (to_string (int (card (counted calls ?sg)))))"
      using fresh by (simp add: counted_def)
    show "(st0 rk \<noteq> None \<or> (\<exists>p < length calls. ?sg ! p = 2 \<or> 4 \<le> ?sg ! p))
             \<longrightarrow> (\<forall>p < length calls. 2 \<le> ?sg ! p)"
      using fresh by auto
    show "(\<forall>p < length calls. 2 \<le> ?sg ! p)
             \<longrightarrow> st0 rk \<noteq> None \<or> (\<exists>p < length calls. ?sg ! p = 2)"
      using assms(1) by auto
  qed (simp_all add: barrier_group_def)
qed

lemma barrier_inv_crun:
  assumes "pck \<noteq> ack" "pck \<noteq> rk" "ack \<noteq> rk" and "int (length calls) \<le> INT_MAX"
  shows "barrier_inv (pck, ack, rk) calls n c \<Longrightarrow> crun c sched = Some c' \<Longrightarrow>
         barrier_inv (pck, ack, rk) calls (n + length sched) c'"
proof (induction sched arbitrary: n c)
  case Nil
  then show ?case by simp
next
  case (Cons q sched)
  from Cons.prems(2) obtain c1 where s: "cstep c q = Some c1" and r: "crun c1 sched = Some c'"
    by (auto split: option.splits)
  from barrier_step [OF assms Cons.prems(1) s]
  have "barrier_inv (pck, ack, rk) calls (Suc n) c1" .
  from Cons.IH [OF this r] show ?case by simp
qed

lemma sum_list_bound: "\<forall>x \<in> set xs. x \<le> c \<Longrightarrow> sum_list xs \<le> length xs * c" for c :: nat
  by (induction xs) auto

lemma sync_stage_started:
  assumes "pck \<noteq> ack" "2 \<le> s" "s \<le> 5"
  shows "sync_stage (pck, ack, rk) W a S s \<noteq> sync_stage (pck, ack, rk) W a S 0"
  using assms(3,2)
  by (cases rule: stage_cases)
    (simp_all add: sync_stage_0 sync_stage_2 sync_stage_3 sync_stage_4 sync_stage_5
      sync_result_cases)

lemma barrier_inv_finished:
  assumes ne: "pck \<noteq> ack" and nonempty: "calls \<noteq> []"
    and start: "fst (getNextKeyIds barrierId) = (pck, ack, rk)"
    and inv: "barrier_inv (pck, ack, rk) calls n (st, ps)"
    and p: "p < length calls" and fin: "finished (ps ! p)"
  shows "ps ! p = sync_result (sum_list calls)
    \<and> (\<forall>r < length calls. ps ! r \<noteq> barrier_group barrierId calls ! r)
    \<and> st pck = Some (to_string (int (length calls)))
    \<and> st ack = Some (to_string (sum_list calls))"
proof -
  let ?N = "length calls"
  from inv obtain sg where
    lsg: "length sg = ?N" and lps: "length ps = ?N"
    and stages: "\<forall>p < ?N. sg ! p \<le> 5
           \<and> ps ! p = sync_stage (pck, ack, rk) (int ?N) (calls ! p) (sum_list calls) (sg ! p)"
    and ackv: "st ack = (if \<forall>p < ?N. sg ! p = 0 then None
                   else Some (to_string (added_calls calls sg)))"
    and pckv: "st pck = (if counted calls sg = {} then None
                   else Some (to_string (int (card (counted calls sg)))))"
    and late: "(st rk \<noteq> None \<or> (\<exists>p < ?N. sg ! p = 2 \<or> 4 \<le> sg ! p))
           \<longrightarrow> (\<forall>p < ?N. 2 \<le> sg ! p)"
    by (rule barrier_invE)
  from stages p fin have s5: "sg ! p = 5"
    using finished_sync_stage [of "sg ! p" pck ack rk] by simp
  with stages p have res: "ps ! p = sync_result (sum_list calls)"
    by (simp add: sync_stage_5)
  from late p s5 have all2: "\<forall>p < ?N. 2 \<le> sg ! p" by auto
  then have all1: "\<forall>p < ?N. 1 \<le> sg ! p"
    by (meson le_trans one_le_numeral)
  have "\<not> (\<forall>p < ?N. sg ! p = 0)" using p s5 by auto
  with ackv added_calls_all [OF all1] have a: "st ack = Some (to_string (sum_list calls))"
    by simp
  from all2 have "card (counted calls sg) = ?N" by (simp add: counted_all)
  moreover from this nonempty have "counted calls sg \<noteq> {}" by auto
  ultimately have c: "st pck = Some (to_string (int ?N))"
    using pckv by simp
  have "ps ! r \<noteq> barrier_group barrierId calls ! r" if "r < ?N" for r
    using that stages all2 sync_stage_started [OF ne, of "sg ! r"]
    by (simp add: barrier_group_stages [OF start])
  with res a c show ?thesis by blast
qed

lemma barrier_inv_progress:
  assumes inv: "barrier_inv (pck, ack, rk) calls n (st, ps)"
    and p: "p < length calls" and nfin: "\<not> finished (ps ! p)"
  shows "\<exists>q < length calls. cstep (st, ps) q \<noteq> None"
proof -
  let ?N = "length calls"
  from inv obtain sg where
    lsg: "length sg = ?N" and lps: "length ps = ?N"
    and stages: "\<forall>p < ?N. sg ! p \<le> 5
           \<and> ps ! p = sync_stage (pck, ack, rk) (int ?N) (calls ! p) (sum_list calls) (sg ! p)"
    and ackv: "st ack = (if \<forall>p < ?N. sg ! p = 0 then None
                   else Some (to_string (added_calls calls sg)))"
    and late: "(st rk \<noteq> None \<or> (\<exists>p < ?N. sg ! p = 2 \<or> 4 \<le> sg ! p))
           \<longrightarrow> (\<forall>p < ?N. 2 \<le> sg ! p)"
    and ready: "(\<forall>p < ?N. 2 \<le> sg ! p)
           \<longrightarrow> st rk \<noteq> None \<or> (\<exists>p < ?N. sg ! p = 2)"
    by (rule barrier_invE)
  have early: "cstep (st, ps) r \<noteq> None" if "r < ?N" "sg ! r \<le> 2" for r
  proof -
    from that(2) consider "sg ! r = 0" | "sg ! r = Suc 0" | "sg ! r = 2" by linarith
    then have "exec st (ps ! r) \<noteq> None"
      using stages that(1)
      by cases (auto simp: sync_stage_0 sync_stage_1 sync_stage_2 split: prod.splits)
    with that(1) lps show ?thesis
      by (auto simp: cstep_def)
  qed
  have waiting: "cstep (st, ps) r \<noteq> None" if "r < ?N" "sg ! r = 3" "st rk \<noteq> None" for r
  proof -
    have "exec st (ps ! r) \<noteq> None"
      using stages that by (auto simp: sync_stage_3 store_check_def)
    with that(1) lps show ?thesis
      by (auto simp: cstep_def)
  qed
  have reading: "cstep (st, ps) r \<noteq> None" if "r < ?N" "sg ! r = 4" for r
  proof -
    from late that have "\<forall>p < ?N. 2 \<le> sg ! p" by auto
    have "\<not> (\<forall>p < ?N. sg ! p = 0)" using that by auto
    with ackv have "st ack \<noteq> None" by simp
    then have "exec st (ps ! r) \<noteq> None"
      using stages that by (auto simp: sync_stage_4)
    with that(1) lps show ?thesis
      by (auto simp: cstep_def)
  qed
  have "sg ! p \<noteq> 5"
    using stages p nfin finished_sync_stage [of "sg ! p" pck ack rk] by auto
  moreover from stages p have "sg ! p \<le> 5" by simp
  ultimately have sp: "sg ! p \<le> 4" by linarith
  show ?thesis
  proof (cases "\<exists>r < ?N. sg ! r \<le> 2 \<or> sg ! r = 4")
    case True
    with early reading show ?thesis by blast
  next
    case False
    with sp p have p3: "sg ! p = 3" by force
    from False have "\<forall>r < ?N. 2 \<le> sg ! r" by (meson nat_le_linear)
    with ready False have "st rk \<noteq> None" by force
    with waiting p p3 show ?thesis by blast
  qed
qed


text \<open>
  Claim C1, amended. Let \<open>N \<ge> 1\<close> workers call \<^verbatim>\<open>syncCallCount\<close> with the size \<open>N\<close>
  and their own \<open>activeCalls\<close>, all from the same value of the process-local counter,
  on a store that holds none of the three keys of that epoch, and let them take their
  store operations in any order. Then in every configuration they reach: if the call
  of some worker has ended, every worker has begun its call (none is still at its first
  operation) and the process count in the store reads \<open>N\<close>; the call that has ended
  has returned the sum of all \<open>activeCalls\<close> when that sum is an \<^verbatim>\<open>int\<close>, and has
  thrown \<^verbatim>\<open>std::out_of_range\<close> (from \<^verbatim>\<open>std::stoi\<close>) when it is not. No
  configuration is stuck while a call has not ended, and a schedule has at most
  \<open>5 * N\<close> steps: every call ends.
\<close>

theorem barrier_group_total:
  assumes "calls \<noteq> []" and "int (length calls) \<le> INT_MAX"
    and "fresh_keys (fst (getNextKeyIds barrierId)) st0"
    and "crun (st0, barrier_group barrierId calls) sched = Some (st, ps)"
  shows "length ps = length calls
     \<and> (\<forall>p < length calls. finished (ps ! p) \<longrightarrow>
           ps ! p = (if in_int_range (sum_list calls) then Return (sum_list calls)
                     else Throw StoiOutOfRange)
           \<and> (\<forall>r < length calls. ps ! r \<noteq> barrier_group barrierId calls ! r)
           \<and> st (fst (fst (getNextKeyIds barrierId))) = Some (to_string (int (length calls))))
     \<and> ((\<exists>p < length calls. \<not> finished (ps ! p))
           \<longrightarrow> (\<exists>q < length calls. cstep (st, ps) q \<noteq> None))
     \<and> length sched \<le> 5 * length calls"
proof -
  obtain pck ack rk where keys: "fst (getNextKeyIds barrierId) = (pck, ack, rk)"
    by (metis prod_cases3)
  then have "epochKeys (snd (getNextKeyIds barrierId)) = (pck, ack, rk)"
    by (simp add: getNextKeyIds_keys)
  from epochKeys_neq [OF this] have ne: "pck \<noteq> ack" "pck \<noteq> rk" "ack \<noteq> rk"
    by simp_all
  from assms(3) keys have "fresh_keys (pck, ack, rk) st0" by simp
  from barrier_inv_crun [OF ne assms(2) barrier_inv_init [OF assms(1) keys this] assms(4)]
  have inv: "barrier_inv (pck, ack, rk) calls (length sched) (st, ps)" by simp
  then obtain sg where lsg: "length sg = length calls" and lps: "length ps = length calls"
    and stages: "\<forall>p < length calls. sg ! p \<le> 5
           \<and> ps ! p = sync_stage (pck, ack, rk) (int (length calls)) (calls ! p)
                       (sum_list calls) (sg ! p)"
    and steps: "length sched \<le> sum_list sg"
    by (rule barrier_invE)
  from stages lsg have "\<forall>x \<in> set sg. x \<le> 5"
    by (metis in_set_conv_nth)
  then have "sum_list sg \<le> length sg * 5" by (rule sum_list_bound)
  with steps lsg have bound: "length sched \<le> 5 * length calls" by simp
  have fin: "ps ! p = (if in_int_range (sum_list calls) then Return (sum_list calls)
                     else Throw StoiOutOfRange)
           \<and> (\<forall>r < length calls. ps ! r \<noteq> barrier_group barrierId calls ! r)
           \<and> st (fst (fst (getNextKeyIds barrierId))) = Some (to_string (int (length calls)))"
    if "p < length calls" "finished (ps ! p)" for p
    using barrier_inv_finished [OF ne(1) assms(1) keys inv that]
    by (simp add: keys sync_result_cases)
  from fin barrier_inv_progress [OF inv] lps bound show ?thesis
    by blast
qed


text \<open>Unfolding for the evaluation of concrete schedules.\<close>

lemmas barrier_eval =
  barrier_group_def syncCallCount_def syncCallCount_ops_def getNextKeyIds_def key_defs
  cstep_def store_add_def store_set_def store_check_def Let_def counter_val_def digits_val_def
  digit_val_def to_string_def digits.simps digit_char_def to_int32_def stoi_def isspace_def
  isdigit_def in_int_range_def INT_MIN_def INT_MAX_def

text \<open>
  Three workers with one active call each, first epoch, empty store, one schedule to the
  end: all three receive 3.
\<close>

theorem barrier_group_total_witness:
  "[1, 1, 1 :: int] \<noteq> [] \<and> int (length [1, 1, 1 :: int]) \<le> INT_MAX
   \<and> fresh_keys (fst (getNextKeyIds 0)) Map.empty
   \<and> in_int_range (sum_list [1, 1, 1])
   \<and> (\<exists>st. crun (Map.empty, barrier_group 0 [1, 1, 1]) [0, 1, 2, 0, 2, 1, 1, 1, 0, 1, 0, 2, 2]
             = Some (st, [Return 3, Return 3, Return 3])
          \<and> st (fst (fst (getNextKeyIds 0))) = Some (to_string (int (length [1, 1, 1 :: int]))))
   \<and> length [0, 1, 2, 0, 2, 1, 1, 1, 0, 1, 0, 2, 2 :: nat] \<le> 5 * length [1, 1, 1 :: int]"
proof -
  have ne: "[1, 1, 1 :: int] \<noteq> []" by simp
  have range: "int (length [1, 1, 1 :: int]) \<le> INT_MAX" by (simp add: INT_MAX_def)
  have fresh: "fresh_keys (fst (getNextKeyIds 0)) Map.empty"
    by (simp add: fresh_keys_def key_list_def getNextKeyIds_def epochKeys_def Let_def)
  have sum: "in_int_range (sum_list [1, 1, 1])"
    by (simp add: in_int_range_def INT_MIN_def INT_MAX_def)
  have "map_option snd (crun (Map.empty, barrier_group 0 [1, 1, 1])
          [0, 1, 2, 0, 2, 1, 1, 1, 0, 1, 0, 2, 2])
        = Some [Return 3, Return 3, Return 3]"
    by (simp add: barrier_eval)
  then obtain st where run: "crun (Map.empty, barrier_group 0 [1, 1, 1])
          [0, 1, 2, 0, 2, 1, 1, 1, 0, 1, 0, 2, 2] = Some (st, [Return 3, Return 3, Return 3])"
    by auto
  from barrier_group_total [OF ne range fresh run]
  have "\<forall>p < length [1, 1, 1 :: int]. finished ([Return 3, Return 3, Return 3 :: int prog] ! p) \<longrightarrow>
           st (fst (fst (getNextKeyIds 0))) = Some (to_string (int (length [1, 1, 1 :: int])))"
    and len: "length [0, 1, 2, 0, 2, 1, 1, 1, 0, 1, 0, 2, 2 :: nat] \<le> 5 * length [1, 1, 1 :: int]"
    by blast+
  from this(1) [rule_format, of 0]
  have "st (fst (fst (getNextKeyIds 0))) = Some (to_string (int (length [1, 1, 1 :: int])))"
    by simp
  with run have "\<exists>st. crun (Map.empty, barrier_group 0 [1, 1, 1]) [0, 1, 2, 0, 2, 1, 1, 1, 0, 1, 0, 2, 2]
             = Some (st, [Return 3, Return 3, Return 3])
          \<and> st (fst (fst (getNextKeyIds 0))) = Some (to_string (int (length [1, 1, 1 :: int])))"
    by blast
  with ne range fresh sum len show ?thesis by blast
qed

text \<open>
  Claim C1 as stated fails when the sum does not fit the result type. Two workers with
  \<open>2^30\<close> active calls each, first epoch, empty store: the sum is \<open>2^31\<close>, and under a
  schedule that runs both calls to their end both throw instead of returning it.
\<close>

theorem barrier_sum_overflow_counterexample:
  "[1073741824, 1073741824 :: int] \<noteq> []
   \<and> in_int_range 1073741824
   \<and> fresh_keys (fst (getNextKeyIds 0)) Map.empty
   \<and> sum_list [1073741824, 1073741824] = (2147483648 :: int)
   \<and> map_option snd (crun (Map.empty, barrier_group 0 [1073741824, 1073741824])
         [0, 1, 0, 1, 1, 1, 1, 0, 0])
       = Some [Throw StoiOutOfRange, Throw StoiOutOfRange]"
proof -
  have "map_option snd (crun (Map.empty, barrier_group 0 [1073741824, 1073741824])
         [0, 1, 0, 1, 1, 1, 1, 0, 0])
       = Some [Throw StoiOutOfRange, Throw StoiOutOfRange]"
    by (simp add: barrier_eval)
  moreover have "fresh_keys (fst (getNextKeyIds 0)) Map.empty"
    by (simp add: fresh_keys_def key_list_def getNextKeyIds_def epochKeys_def Let_def)
  ultimately show ?thesis
    by (simp add: in_int_range_def INT_MIN_def INT_MAX_def)
qed

end
